theory Spec2Isabelle
  imports Complex_Main "HOL-Library.Signed_Division"
begin

section \<open>minES: a switch-style echo suppressor\<close>

text \<open>
  The embedding follows \<^verbatim>\<open>suppressor.h\<close> in its configurable form (class
  \<^verbatim>\<open>EchoSuppressor\<close> with \<^verbatim>\<open>EchoSuppressorConfig\<close> and the \<^verbatim>\<open>LagMetric\<close>
  selector). The variants with compile-time constants (\<^verbatim>\<open>kSampleRate = 16000\<close>,
  \<^verbatim>\<open>kAttenLinear = 0.0001f\<close>, AMDF only) and the JavaScript port run the same steps;
  they are the instances of this model at the corresponding field values.

  Samples, powers, scores and gains are \<^verbatim>\<open>float\<close> in the source. They are modelled by
  \<^typ>\<open>real\<close>: every operation is the exact one, rounding is not modelled, and the only
  non-finite value the source writes itself, the initial \<^verbatim>\<open>-infinity\<close> of
  \<^verbatim>\<open>best_score\<close>, is a constructor of its own. The model therefore has no infinity
  and no NaN: what it says about a value holds of the source as long as that value fits a
  \<^verbatim>\<open>float\<close>, and \<open>float32_overflows\<close> marks the reals that do not. \<^verbatim>\<open>int\<close> and \<^verbatim>\<open>ptrdiff_t\<close> are
  \<^typ>\<open>int\<close> (no value of the source leaves the 32-bit range for a sample rate that fits
  it), \<^verbatim>\<open>size_t\<close> is \<^typ>\<open>nat\<close>; C++ division and remainder, which truncate towards zero,
  are \<open>sdiv\<close> and \<open>smod\<close>.

  A block is a list. The source reads \<^verbatim>\<open>block_samples\<close> entries through a raw pointer
  and the caller owes it that many; what is said about the samples read assumes blocks of
  that length. The two output pointers are optional in the source and always written
  here.
\<close>

subsection \<open>Data\<close>

datatype LagMetric = kNCC | kAMDF

record EchoSuppressorConfig =
  rho_thresh :: real
  power_ratio_alpha :: real
  atten_db :: real
  hangover_blocks :: int
  attack :: real
  release :: real
  lag_metric :: LagMetric

text \<open>The defaults of the struct's member initialisers.\<close>

definition default_config :: EchoSuppressorConfig where
  "default_config =
     \<lparr>rho_thresh = 0.6, power_ratio_alpha = 1.3, atten_db = - 80, hangover_blocks = 20,
      attack = 0.1, release = 0.01, lag_metric = kNCC\<rparr>"

record EchoSuppressor =
  fs :: int
  block_samples :: int
  max_lag_samples :: int
  config :: EchoSuppressorConfig
  atten_linear :: real
  far_hist :: "real list"
  hist_pos :: nat
  gate_gain :: real
  hang_cnt :: int

text \<open>
  What one call of \<^verbatim>\<open>process_block\<close> hands back: the output block, the value written
  through \<^verbatim>\<open>applied_gain\<close>, the value written through \<^verbatim>\<open>estimated_lag_samples\<close>, and
  the returned flag \<^verbatim>\<open>suppress\<close>.
\<close>

record BlockResult =
  out :: "real list"
  applied_gain :: real
  estimated_lag_samples :: int
  suppress :: bool

text \<open>\<^verbatim>\<open>best_score\<close> starts at \<^verbatim>\<open>-infinity\<close> and holds a score afterwards.\<close>

datatype best_score = MinusInfinity | Score real

fun exceeds :: "real \<Rightarrow> best_score \<Rightarrow> bool" where
  "exceeds x MinusInfinity = True"
| "exceeds x (Score b) = (b < x)"

fun above_thresh :: "best_score \<Rightarrow> real \<Rightarrow> bool" where
  "above_thresh MinusInfinity t = False"
| "above_thresh (Score b) t = (t < b)"


subsection \<open>Configuration and construction\<close>

text \<open>
  \<^verbatim>\<open>set_config\<close> with \<^verbatim>\<open>std::pow\<close> as the parameter \<open>pw\<close>: the library function is not
  part of the source, and the comparison with zero that follows the call only shows on a
  result below zero. \<open>set_config\<close> itself takes the exact power for it.
\<close>

definition set_config_with ::
  "(real \<Rightarrow> real \<Rightarrow> real) \<Rightarrow> EchoSuppressorConfig \<Rightarrow> EchoSuppressor \<Rightarrow> EchoSuppressor"
where
  "set_config_with pw cfg s =
     (let a = pw 10 (atten_db cfg / 20)
      in s\<lparr>config := cfg, atten_linear := (if a < 0 then 0 else a)\<rparr>)"

definition set_config :: "EchoSuppressorConfig \<Rightarrow> EchoSuppressor \<Rightarrow> EchoSuppressor" where
  "set_config cfg s = set_config_with (powr) cfg s"

definition reset :: "EchoSuppressor \<Rightarrow> EchoSuppressor" where
  "reset s =
     s\<lparr>far_hist := replicate (length (far_hist s)) 0, hist_pos := 0,
       gate_gain := 1, hang_cnt := 0\<rparr>"

text \<open>\<^verbatim>\<open>static_cast<int>\<close> of a float: truncation towards zero.\<close>

definition trunc_int :: "real \<Rightarrow> int" where
  "trunc_int x = (if 0 \<le> x then \<lfloor>x\<rfloor> else \<lceil>x\<rceil>)"

definition new_suppressor :: "int \<Rightarrow> EchoSuppressorConfig \<Rightarrow> EchoSuppressor" where
  "new_suppressor sample_rate cfg =
     (let block = max 1 (sample_rate sdiv 100);
          max_lag = max block (trunc_int (0.08 * real_of_int sample_rate));
          hist_len = nat max_lag + nat block * 4
      in reset (set_config cfg
           \<lparr>fs = sample_rate, block_samples = block, max_lag_samples = max_lag,
            config = default_config, atten_linear = 10 powr (- 18 / 20),
            far_hist = replicate hist_len 0, hist_pos = 0, gate_gain = 1, hang_cnt = 0\<rparr>))"

text \<open>
  The command-line front ends read \<^verbatim>\<open>--hang\<close> as
  \<^verbatim>\<open>std::max(0, std::stoi(value))\<close> before the configuration reaches the suppressor.
  \<^verbatim>\<open>std::stoi\<close> throws on text that is not a number or does not fit an \<^verbatim>\<open>int\<close>, and
  nothing catches it: the first argument is what \<^verbatim>\<open>std::stoi\<close> returns, \<open>None\<close> when it
  throws, and the result is \<open>None\<close> when the program ends there.
\<close>

definition parse_hang ::
  "int option \<Rightarrow> EchoSuppressorConfig \<Rightarrow> EchoSuppressorConfig option"
where
  "parse_hang parsed cfg =
     (case parsed of
        None \<Rightarrow> None
      | Some n \<Rightarrow> Some (cfg\<lparr>hangover_blocks := max 0 n\<rparr>))"

subsection \<open>One block\<close>

text \<open>Step 1: the far-end block goes into the ring, one sample at a time.\<close>

fun push_far :: "real list \<Rightarrow> real list \<times> nat \<Rightarrow> real list \<times> nat" where
  "push_far [] (h, p) = (h, p)"
| "push_far (x # xs) (h, p) = push_far xs (h[p := x], (p + 1) mod length h)"

definition wrap_index :: "nat \<Rightarrow> nat \<Rightarrow> int \<Rightarrow> nat" where
  "wrap_index hist_size pos offset =
     (let idx = (int pos + offset) smod int hist_size
      in nat (if idx < 0 then idx + int hist_size else idx))"

text \<open>Step 2: microphone power and absolute sum, floored.\<close>

definition mic_pow :: "nat \<Rightarrow> real list \<Rightarrow> real" where
  "mic_pow block mic = max (\<Sum>i\<leftarrow>[0..<block]. mic ! i * mic ! i) (1 / 10 ^ 9)"

definition mic_abs :: "nat \<Rightarrow> real list \<Rightarrow> real" where
  "mic_abs block mic = max (\<Sum>i\<leftarrow>[0..<block]. \<bar>mic ! i\<bar>) (1 / 10 ^ 9)"

text \<open>
  Step 3, the inner loop at one lag: \<^verbatim>\<open>fx\<close> is the history sample aligned with
  \<^verbatim>\<open>mic[i]\<close>; the loop sums \<^verbatim>\<open>fx * fx\<close>, and either \<^verbatim>\<open>fabs(fx - my)\<close> and
  \<^verbatim>\<open>fabs(fx)\<close> (AMDF) or \<^verbatim>\<open>fx * my\<close> (NCC).
\<close>

definition fx_at :: "EchoSuppressor \<Rightarrow> int \<Rightarrow> nat \<Rightarrow> real" where
  "fx_at s lag i =
     far_hist s ! wrap_index (length (far_hist s)) (hist_pos s)
                    (- (block_samples s + lag) + int i)"

definition far_pow_at :: "EchoSuppressor \<Rightarrow> int \<Rightarrow> real" where
  "far_pow_at s lag =
     max (\<Sum>i\<leftarrow>[0..<nat (block_samples s)]. fx_at s lag i * fx_at s lag i) (1 / 10 ^ 9)"

text \<open>The two divisors: \<^verbatim>\<open>denom\<close> of the AMDF branch and the square root of the NCC branch.\<close>

definition amdf_denom :: "EchoSuppressor \<Rightarrow> real list \<Rightarrow> int \<Rightarrow> real" where
  "amdf_denom s mic lag =
     max (mic_abs (nat (block_samples s)) mic
          + (\<Sum>i\<leftarrow>[0..<nat (block_samples s)]. \<bar>fx_at s lag i\<bar>)) (1 / 10 ^ 9)"

definition ncc_denom :: "EchoSuppressor \<Rightarrow> real list \<Rightarrow> int \<Rightarrow> real" where
  "ncc_denom s mic lag = sqrt (far_pow_at s lag * mic_pow (nat (block_samples s)) mic)"

definition score_at :: "EchoSuppressor \<Rightarrow> real list \<Rightarrow> int \<Rightarrow> real" where
  "score_at s mic lag =
     (if lag_metric (config s) = kAMDF then
        (let accum = (\<Sum>i\<leftarrow>[0..<nat (block_samples s)]. \<bar>fx_at s lag i - mic ! i\<bar>);
             score = 1 - accum / amdf_denom s mic lag
         in if 1 < score then 1 else if score < - 1 then - 1 else score)
      else
        (let accum = (\<Sum>i\<leftarrow>[0..<nat (block_samples s)]. fx_at s lag i * mic ! i)
         in accum / ncc_denom s mic lag))"

definition lag_step :: "EchoSuppressor \<Rightarrow> int" where
  "lag_step s = max 1 (fs s sdiv 1000)"

text \<open>Step 3, the outer loop over the lags, carrying the running best.\<close>

function lag_loop ::
  "EchoSuppressor \<Rightarrow> real list \<Rightarrow> int \<Rightarrow> best_score \<times> int \<times> real \<Rightarrow> best_score \<times> int \<times> real"
where
  "lag_loop s mic lag best =
     (if lag \<le> max_lag_samples s then
        lag_loop s mic (lag + lag_step s)
          (if exceeds (score_at s mic lag) (fst best)
           then (Score (score_at s mic lag), lag, far_pow_at s lag)
           else best)
      else best)"
  by pat_completeness auto
termination
  by (relation "measure (\<lambda>(s, mic, lag, best). nat (max_lag_samples s + 1 - lag))")
     (auto simp: lag_step_def)

declare lag_loop.simps [simp del]

definition lag_search :: "EchoSuppressor \<Rightarrow> real list \<Rightarrow> best_score \<times> int \<times> real" where
  "lag_search s mic = lag_loop s mic 0 (MinusInfinity, 0, 1 / 10 ^ 9)"

text \<open>Steps 4 and 5: the decision.\<close>

definition echo_detected :: "EchoSuppressor \<Rightarrow> real list \<Rightarrow> bool" where
  "echo_detected s mic =
     (case lag_search s mic of (best_score, best_lag, best_far_pow) \<Rightarrow>
        above_thresh best_score (rho_thresh (config s)) \<and>
        mic_pow (nat (block_samples s)) mic
          < power_ratio_alpha (config s) * max best_far_pow (1 / 10 ^ 9))"

text \<open>Step 6: the hangover counter; the result is the flag \<^verbatim>\<open>suppress\<close> and the counter.\<close>

definition hangover_step :: "bool \<Rightarrow> int \<Rightarrow> int \<Rightarrow> bool \<times> int" where
  "hangover_step detected hangover cnt =
     (if detected then (True, hangover)
      else if 0 < cnt then (True, cnt - 1)
      else (False, cnt))"

text \<open>Steps 7 and 8: target gain and one step of the smoother.\<close>

definition smooth_gain :: "EchoSuppressor \<Rightarrow> bool \<Rightarrow> real" where
  "smooth_gain s active =
     (let target_gain = (if active then atten_linear s else 1);
          coeff = (if target_gain < gate_gain s then attack (config s) else release (config s))
      in (1 - coeff) * gate_gain s + coeff * target_gain)"

text \<open>The state once step 1 has run.\<close>

definition push_block :: "EchoSuppressor \<Rightarrow> real list \<Rightarrow> EchoSuppressor" where
  "push_block s far =
     (case push_far (take (nat (block_samples s)) far) (far_hist s, hist_pos s) of
        (h, p) \<Rightarrow> s\<lparr>far_hist := h, hist_pos := p\<rparr>)"

text \<open>Steps 1 to 9 in the order of the source.\<close>

definition process_block ::
  "EchoSuppressor \<Rightarrow> real list \<Rightarrow> real list \<Rightarrow> BlockResult \<times> EchoSuppressor"
where
  "process_block s0 far mic =
     (let s1 = push_block s0 far;
          detected = echo_detected s1 mic;
          lag_out = (if detected then fst (snd (lag_search s1 mic)) else - 1);
          (active, hang) = hangover_step detected (hangover_blocks (config s1)) (hang_cnt s1);
          gain = smooth_gain s1 active
      in (\<lparr>out = map (\<lambda>i. mic ! i * gain) [0..<nat (block_samples s1)],
           applied_gain = gain, estimated_lag_samples = lag_out, suppress = active\<rparr>,
          s1\<lparr>gate_gain := gain, hang_cnt := hang\<rparr>))"

text \<open>A run of calls in chronological order, with the results collected.\<close>

fun process_blocks ::
  "EchoSuppressor \<Rightarrow> (real list \<times> real list) list \<Rightarrow> BlockResult list \<times> EchoSuppressor"
where
  "process_blocks s [] = ([], s)"
| "process_blocks s ((far, mic) # bs) =
     (case process_block s far mic of (r, s') \<Rightarrow>
        (case process_blocks s' bs of (rs, s'') \<Rightarrow> (r # rs, s'')))"

subsection \<open>The lag search as the specification words it\<close>

text \<open>
  The candidate lags \<open>0, lag_step, 2 * lag_step, \<dots>\<close> up to the maximum lag, in ascending
  order, and the winner among them: a candidate whose score none exceeds and every smaller
  candidate misses strictly.
\<close>

definition lag_candidates :: "EchoSuppressor \<Rightarrow> int list" where
  "lag_candidates s =
     map (\<lambda>k. int k * lag_step s) [0..<nat (max_lag_samples s div lag_step s + 1)]"

definition is_winner :: "EchoSuppressor \<Rightarrow> real list \<Rightarrow> int \<Rightarrow> bool" where
  "is_winner s mic L \<longleftrightarrow>
     L \<in> set (lag_candidates s)
     \<and> (\<forall>l \<in> set (lag_candidates s). score_at s mic l \<le> score_at s mic L)
     \<and> (\<forall>l \<in> set (lag_candidates s). l < L \<longrightarrow> score_at s mic l < score_at s mic L)"

text \<open>The body of the outer loop: a candidate replaces the running best only if its score
  is strictly larger.\<close>

definition keep_best ::
  "EchoSuppressor \<Rightarrow> real list \<Rightarrow> best_score \<times> int \<times> real \<Rightarrow> int \<Rightarrow> best_score \<times> int \<times> real"
where
  "keep_best s mic best lag =
     (if exceeds (score_at s mic lag) (fst best)
      then (Score (score_at s mic lag), lag, far_pow_at s lag)
      else best)"

text \<open>The lags the loop visits when it is entered at \<open>lag\<close>.\<close>

definition visited :: "EchoSuppressor \<Rightarrow> int \<Rightarrow> int \<Rightarrow> bool" where
  "visited s lag l \<longleftrightarrow> lag \<le> l \<and> l \<le> max_lag_samples s \<and> lag_step s dvd (l - lag)"

text \<open>The history window at a lag equals the microphone block, sample by sample.\<close>

definition window_matches :: "EchoSuppressor \<Rightarrow> real list \<Rightarrow> int \<Rightarrow> bool" where
  "window_matches s mic lag \<longleftrightarrow>
     list_all (\<lambda>i. fx_at s lag i = mic ! i) [0..<nat (block_samples s)]"

text \<open>The block delivered \<open>L\<close> samples before the newest one, read off the samples
  delivered so far.\<close>

definition delayed_block :: "real list \<Rightarrow> nat \<Rightarrow> nat \<Rightarrow> real list" where
  "delayed_block stream block L = take block (drop (length stream - (block + L)) stream)"

subsection \<open>State invariants\<close>

text \<open>
  The sizes the constructor sets up: at least one sample per block, a maximum lag of at
  least a block, a history of \<open>max_lag_samples + 4 * block_samples\<close> slots, the cursor
  inside it.
\<close>

definition wf_state :: "EchoSuppressor \<Rightarrow> bool" where
  "wf_state s \<longleftrightarrow>
     1 \<le> block_samples s \<and> block_samples s \<le> max_lag_samples s
     \<and> length (far_hist s) = nat (max_lag_samples s) + nat (block_samples s) * 4
     \<and> hist_pos s < length (far_hist s)"

text \<open>
  The history \<open>h\<close> with cursor \<open>p\<close> is the ring of the far-end samples \<open>stream\<close> delivered
  so far: the cursor is their number modulo the capacity, sample \<open>j\<close> sits in slot
  \<open>j mod capacity\<close> as long as it is among the last \<open>capacity\<close> samples, and a slot no
  sample has reached holds 0.
\<close>

definition ring_of :: "real list \<Rightarrow> nat \<Rightarrow> real list \<Rightarrow> bool" where
  "ring_of h p stream \<longleftrightarrow>
     p = length stream mod length h
     \<and> (\<forall>j < length stream. length stream \<le> j + length h \<longrightarrow> h ! (j mod length h) = stream ! j)
     \<and> (\<forall>i < length h. length stream \<le> i \<longrightarrow> h ! i = 0)"

definition ring_holds :: "EchoSuppressor \<Rightarrow> real list \<Rightarrow> bool" where
  "ring_holds s stream = ring_of (far_hist s) (hist_pos s) stream"

text \<open>The gain between the muted gain and 1, the hangover counter not negative.\<close>

definition gain_inv :: "EchoSuppressor \<Rightarrow> bool" where
  "gain_inv s \<longleftrightarrow> atten_linear s \<le> gate_gain s \<and> gate_gain s \<le> 1 \<and> 0 \<le> hang_cnt s"

subsection \<open>Silence\<close>

text \<open>An all-zero block of the suppressor's block length, and one call that feeds it on
  both inputs.\<close>

definition silence :: "EchoSuppressor \<Rightarrow> real list" where
  "silence s = replicate (nat (block_samples s)) 0"

definition process_silence :: "EchoSuppressor \<Rightarrow> EchoSuppressor" where
  "process_silence s = snd (process_block s (silence s) (silence s))"

subsection \<open>Example inputs\<close>

text \<open>
  The constants of the AMDF-only header as a configuration; suppressors at a sample rate
  of 100 Hz (one sample per block, lags 0 to 8, 12 history slots); a configuration whose
  muted gain is +20 dB, one whose muted gain is +1000 dB, and one with a negative
  hangover length.
\<close>

definition amdf_config :: EchoSuppressorConfig where
  "amdf_config = default_config\<lparr>lag_metric := kAMDF\<rparr>"

definition example_amdf :: EchoSuppressor where
  "example_amdf = new_suppressor 100 amdf_config"

definition example_ncc :: EchoSuppressor where
  "example_ncc = new_suppressor 100 default_config"

definition loud_config :: EchoSuppressorConfig where
  "loud_config = default_config\<lparr>atten_db := 20\<rparr>"


definition negative_hang_config :: EchoSuppressorConfig where
  "negative_hang_config = amdf_config\<lparr>hangover_blocks := - 3\<rparr>"

section \<open>Facts about the model\<close>

subsection \<open>What one call returns\<close>

lemma lag_step_pos: "0 < lag_step s"
  by (simp add: lag_step_def)

lemma push_block_fields [simp]:
  "fs (push_block s far) = fs s"
  "block_samples (push_block s far) = block_samples s"
  "max_lag_samples (push_block s far) = max_lag_samples s"
  "config (push_block s far) = config s"
  "atten_linear (push_block s far) = atten_linear s"
  "gate_gain (push_block s far) = gate_gain s"
  "hang_cnt (push_block s far) = hang_cnt s"
  by (simp_all add: push_block_def split: prod.splits)

lemma lag_step_push_block [simp]: "lag_step (push_block s far) = lag_step s"
  by (simp add: lag_step_def)

lemma process_block_result:
  "fst (process_block s far mic) =
     \<lparr>out = map (\<lambda>i. mic ! i * smooth_gain (push_block s far)
                     (fst (hangover_step (echo_detected (push_block s far) mic)
                             (hangover_blocks (config s)) (hang_cnt s))))
              [0..<nat (block_samples s)],
      applied_gain = smooth_gain (push_block s far)
                     (fst (hangover_step (echo_detected (push_block s far) mic)
                             (hangover_blocks (config s)) (hang_cnt s))),
      estimated_lag_samples =
        (if echo_detected (push_block s far) mic
         then fst (snd (lag_search (push_block s far) mic)) else - 1),
      suppress = fst (hangover_step (echo_detected (push_block s far) mic)
                             (hangover_blocks (config s)) (hang_cnt s))\<rparr>"
  by (simp add: process_block_def Let_def split: prod.splits)

lemma process_block_state:
  "snd (process_block s far mic) =
     (push_block s far)\<lparr>gate_gain := applied_gain (fst (process_block s far mic)),
        hang_cnt := snd (hangover_step (echo_detected (push_block s far) mic)
                             (hangover_blocks (config s)) (hang_cnt s))\<rparr>"
  by (simp add: process_block_def Let_def split: prod.splits)

lemma smooth_gain_push_block [simp]:
  "smooth_gain (push_block s far) b = smooth_gain s b"
  by (simp add: smooth_gain_def Let_def)

subsection \<open>The lag loop\<close>

lemma visited_step:
  assumes "lag \<le> max_lag_samples s"
  shows "visited s lag l \<longleftrightarrow> l = lag \<or> visited s (lag + lag_step s) l"
proof
  assume v: "visited s lag l"
  show "l = lag \<or> visited s (lag + lag_step s) l"
  proof (cases "l = lag")
    case False
    from v obtain k where k: "l - lag = lag_step s * k" by (auto simp: visited_def dvd_def)
    from v False have "0 < l - lag" by (simp add: visited_def)
    with k lag_step_pos[of s] have "0 < k" by (simp add: zero_less_mult_iff)
    then have "lag_step s * 1 \<le> lag_step s * k" using lag_step_pos[of s] by (intro mult_left_mono) auto
    with k have "lag + lag_step s \<le> l" by simp
    moreover have "l - (lag + lag_step s) = lag_step s * (k - 1)" using k by (simp add: algebra_simps)
    ultimately show ?thesis using v by (simp add: visited_def)
  qed simp
next
  assume "l = lag \<or> visited s (lag + lag_step s) l"
  then show "visited s lag l"
  proof
    assume "l = lag" with assms show ?thesis by (simp add: visited_def)
  next
    assume v: "visited s (lag + lag_step s) l"
    then obtain k where "l - (lag + lag_step s) = lag_step s * k" by (auto simp: visited_def dvd_def)
    then have "l - lag = lag_step s * (k + 1)" by (simp add: algebra_simps)
    then have "lag_step s dvd (l - lag)" by (metis dvd_triv_left)
    with v lag_step_pos[of s] show ?thesis by (simp add: visited_def)
  qed
qed

lemma visited_none: "\<not> lag \<le> max_lag_samples s \<Longrightarrow> \<not> visited s lag l"
  by (simp add: visited_def)

lemma exceeds_trans: "exceeds x b \<Longrightarrow> x < y \<Longrightarrow> exceeds y b"
  by (cases b) auto

lemma not_exceeds_less: "\<not> exceeds x b \<Longrightarrow> exceeds y b \<Longrightarrow> x < y"
  by (cases b) auto

lemma lag_loop_result:
  "(lag_loop s mic lag best = best \<and> (\<forall>l. visited s lag l \<longrightarrow> \<not> exceeds (score_at s mic l) (fst best)))
   \<or> (\<exists>L. visited s lag L
          \<and> lag_loop s mic lag best = (Score (score_at s mic L), L, far_pow_at s L)
          \<and> exceeds (score_at s mic L) (fst best)
          \<and> (\<forall>l. visited s lag l \<longrightarrow> score_at s mic l \<le> score_at s mic L)
          \<and> (\<forall>l. visited s lag l \<and> l < L \<longrightarrow> score_at s mic l < score_at s mic L))"
proof (induction s mic lag best rule: lag_loop.induct)
  case (1 s mic lag best)
  show ?case
  proof (cases "lag \<le> max_lag_samples s")
    case False
    then show ?thesis by (simp add: lag_loop.simps visited_none)
  next
    case in_range: True
    let ?sc = "score_at s mic"
    let ?best' = "if exceeds (?sc lag) (fst best)
                  then (Score (?sc lag), lag, far_pow_at s lag) else best"
    have unfold: "lag_loop s mic lag best = lag_loop s mic (lag + lag_step s) ?best'"
      using in_range by (subst lag_loop.simps) simp
    note vs = visited_step[OF in_range]
    note IH = "1.IH"[OF in_range]
    show ?thesis
    proof (cases "exceeds (?sc lag) (fst best)")
      case ex: True
      then have b': "?best' = (Score (?sc lag), lag, far_pow_at s lag)" by simp
      from IH consider
        (same) "lag_loop s mic (lag + lag_step s) ?best' = ?best'"
               "\<forall>l. visited s (lag + lag_step s) l \<longrightarrow> \<not> exceeds (?sc l) (fst ?best')"
      | (later) L where "visited s (lag + lag_step s) L"
               "lag_loop s mic (lag + lag_step s) ?best' = (Score (?sc L), L, far_pow_at s L)"
               "exceeds (?sc L) (fst ?best')"
               "\<forall>l. visited s (lag + lag_step s) l \<longrightarrow> ?sc l \<le> ?sc L"
               "\<forall>l. visited s (lag + lag_step s) l \<and> l < L \<longrightarrow> ?sc l < ?sc L"
        by blast
      then show ?thesis
      proof cases
        case same
        from same(2) b' have le: "\<forall>l. visited s (lag + lag_step s) l \<longrightarrow> ?sc l \<le> ?sc lag"
          by (auto simp: not_less)
        have "visited s lag lag" using vs by simp
        moreover have "lag_loop s mic lag best = (Score (?sc lag), lag, far_pow_at s lag)"
          using unfold same(1) b' by simp
        moreover have "\<forall>l. visited s lag l \<longrightarrow> ?sc l \<le> ?sc lag" using le vs by auto
        moreover have "\<forall>l. visited s lag l \<and> l < lag \<longrightarrow> ?sc l < ?sc lag"
          by (auto simp: visited_def)
        ultimately show ?thesis using ex by blast
      next
        case later
        from later(3) b' have lt: "?sc lag < ?sc L" by simp
        have "visited s lag L" using later(1) vs by simp
        moreover have "lag_loop s mic lag best = (Score (?sc L), L, far_pow_at s L)"
          using unfold later(2) by simp
        moreover have "exceeds (?sc L) (fst best)" using ex lt by (rule exceeds_trans)
        moreover have "\<forall>l. visited s lag l \<longrightarrow> ?sc l \<le> ?sc L" using later(4) lt vs by auto
        moreover have "\<forall>l. visited s lag l \<and> l < L \<longrightarrow> ?sc l < ?sc L"
          using later(5) lt vs by auto
        ultimately show ?thesis by blast
      qed
    next
      case nex: False
      then have b': "?best' = best" by simp
      from IH b' consider
        (same) "lag_loop s mic (lag + lag_step s) best = best"
               "\<forall>l. visited s (lag + lag_step s) l \<longrightarrow> \<not> exceeds (?sc l) (fst best)"
      | (later) L where "visited s (lag + lag_step s) L"
               "lag_loop s mic (lag + lag_step s) best = (Score (?sc L), L, far_pow_at s L)"
               "exceeds (?sc L) (fst best)"
               "\<forall>l. visited s (lag + lag_step s) l \<longrightarrow> ?sc l \<le> ?sc L"
               "\<forall>l. visited s (lag + lag_step s) l \<and> l < L \<longrightarrow> ?sc l < ?sc L"
        by auto
      then show ?thesis
      proof cases
        case same
        have "lag_loop s mic lag best = best" using unfold b' same(1) by simp
        moreover have "\<forall>l. visited s lag l \<longrightarrow> \<not> exceeds (?sc l) (fst best)"
          using same(2) nex vs by auto
        ultimately show ?thesis by blast
      next
        case later
        have lt: "?sc lag < ?sc L" using nex later(3) by (rule not_exceeds_less)
        have "visited s lag L" using later(1) vs by simp
        moreover have "lag_loop s mic lag best = (Score (?sc L), L, far_pow_at s L)"
          using unfold b' later(2) by simp
        moreover have "\<forall>l. visited s lag l \<longrightarrow> ?sc l \<le> ?sc L" using later(4) lt vs by auto
        moreover have "\<forall>l. visited s lag l \<and> l < L \<longrightarrow> ?sc l < ?sc L"
          using later(5) lt vs by auto
        ultimately show ?thesis using later(3) by blast
      qed
    qed
  qed
qed

lemma set_lag_candidates:
  "l \<in> set (lag_candidates s) \<longleftrightarrow> visited s 0 l"
proof
  assume "l \<in> set (lag_candidates s)"
  then have "l \<in> (\<lambda>k. int k * lag_step s) ` {0..<nat (max_lag_samples s div lag_step s + 1)}"
    by (simp add: lag_candidates_def)
  then obtain k where k: "l = int k * lag_step s"
      and "k \<in> {0..<nat (max_lag_samples s div lag_step s + 1)}"
    by (rule imageE)
  then have "int k \<le> max_lag_samples s div lag_step s" by simp
  then have "int k * lag_step s \<le> max_lag_samples s div lag_step s * lag_step s"
    using lag_step_pos[of s] by (intro mult_right_mono) auto
  also have "\<dots> \<le> max_lag_samples s"
  proof -
    have "max_lag_samples s div lag_step s * lag_step s + max_lag_samples s mod lag_step s
            = max_lag_samples s" by simp
    moreover have "0 \<le> max_lag_samples s mod lag_step s" using lag_step_pos[of s] by simp
    ultimately show ?thesis by linarith
  qed
  finally show "visited s 0 l" using k(1) lag_step_pos[of s] by (simp add: visited_def)
next
  assume v: "visited s 0 l"
  then obtain k where k: "l = lag_step s * k" by (auto simp: visited_def dvd_def)
  with v lag_step_pos[of s] have k0: "0 \<le> k" by (simp add: visited_def zero_le_mult_iff)
  have "k = l div lag_step s" using k lag_step_pos[of s] by simp
  also have "\<dots> \<le> max_lag_samples s div lag_step s"
    using v lag_step_pos[of s] by (intro zdiv_mono1) (auto simp: visited_def)
  finally have "nat k < nat (max_lag_samples s div lag_step s + 1)" using k0 by simp
  then have "nat k \<in> set [0..<nat (max_lag_samples s div lag_step s + 1)]" by simp
  then have "int (nat k) * lag_step s \<in> set (lag_candidates s)"
    unfolding lag_candidates_def set_map by (rule imageI)
  then show "l \<in> set (lag_candidates s)" using k k0 by (simp add: mult.commute)
qed

lemma is_winner_unique: "is_winner s mic L \<Longrightarrow> is_winner s mic L' \<Longrightarrow> L = L'"
  unfolding is_winner_def by (metis linorder_neqE_linordered_idom not_le)

lemma lag_search_cases:
  "(lag_search s mic = (MinusInfinity, 0, 1 / 10 ^ 9) \<and> max_lag_samples s < 0)
   \<or> (\<exists>L. lag_search s mic = (Score (score_at s mic L), L, far_pow_at s L)
          \<and> is_winner s mic L)"
proof -
  let ?init = "(MinusInfinity, 0::int, 1 / 10 ^ 9 :: real)"
  from lag_loop_result[of s mic 0 ?init] consider
    (same) "lag_loop s mic 0 ?init = ?init"
           "\<forall>l. visited s 0 l \<longrightarrow> \<not> exceeds (score_at s mic l) (fst ?init)"
  | (found) L where "visited s 0 L"
           "lag_loop s mic 0 ?init = (Score (score_at s mic L), L, far_pow_at s L)"
           "\<forall>l. visited s 0 l \<longrightarrow> score_at s mic l \<le> score_at s mic L"
           "\<forall>l. visited s 0 l \<and> l < L \<longrightarrow> score_at s mic l < score_at s mic L"
    by blast
  then show ?thesis
  proof cases
    case same
    from same(2) have "\<not> visited s 0 0" by auto
    then have "max_lag_samples s < 0" by (simp add: visited_def)
    with same(1) show ?thesis by (simp add: lag_search_def)
  next
    case found
    then have "is_winner s mic L" by (simp add: is_winner_def set_lag_candidates)
    with found(2) show ?thesis by (auto simp: lag_search_def)
  qed
qed

lemma lag_search_winner:
  assumes "0 \<le> max_lag_samples s"
  shows "\<exists>L. lag_search s mic = (Score (score_at s mic L), L, far_pow_at s L) \<and> is_winner s mic L"
  using lag_search_cases[of s mic] assms by auto

lemma far_pow_at_floor: "1 / 10 ^ 9 \<le> far_pow_at s lag"
  by (simp add: far_pow_at_def)

lemma echo_detected_winner:
  assumes "is_winner s mic L"
  shows "echo_detected s mic \<longleftrightarrow>
           rho_thresh (config s) < score_at s mic L
           \<and> mic_pow (nat (block_samples s)) mic < power_ratio_alpha (config s) * far_pow_at s L"
    and "fst (snd (lag_search s mic)) = L"
proof -
  from assms have "0 \<le> max_lag_samples s"
    by (auto simp: is_winner_def set_lag_candidates visited_def)
  from lag_search_winner[OF this, of mic] obtain L' where
    L': "lag_search s mic = (Score (score_at s mic L'), L', far_pow_at s L')" "is_winner s mic L'"
    by blast
  with assms have eq: "L' = L" using is_winner_unique by blast
  have "max (far_pow_at s L) (1 / 10 ^ 9) = far_pow_at s L"
    using far_pow_at_floor[of s L] by (simp add: max_def)
  with L'(1) eq show "echo_detected s mic \<longleftrightarrow>
           rho_thresh (config s) < score_at s mic L
           \<and> mic_pow (nat (block_samples s)) mic < power_ratio_alpha (config s) * far_pow_at s L"
    by (simp add: echo_detected_def)
  from L'(1) eq show "fst (snd (lag_search s mic)) = L" by simp
qed

subsection \<open>The ring of far-end samples\<close>

lemma push_far_length: "length (fst (push_far xs (h, p))) = length h"
  by (induction xs arbitrary: h p) auto

lemma push_far_pos:
  "p < length h \<Longrightarrow> snd (push_far xs (h, p)) = (p + length xs) mod length h"
proof (induction xs arbitrary: h p)
  case Nil
  then show ?case by simp
next
  case (Cons x xs)
  have "0 < length h" using Cons.prems by (cases h) auto
  then have "(p + 1) mod length h < length (h[p := x])" by simp
  from Cons.IH[OF this] show ?case by (simp add: mod_add_left_eq)
qed

lemma ring_of_push1:
  assumes "0 < length h" "ring_of h p stream"
  shows "ring_of (h[p := x]) ((p + 1) mod length h) (stream @ [x])"
proof -
  let ?c = "length h" and ?n = "length stream"
  from assms(2) have p: "p = ?n mod ?c"
    and old: "\<And>j. j < ?n \<Longrightarrow> ?n \<le> j + ?c \<Longrightarrow> h ! (j mod ?c) = stream ! j"
    and zero: "\<And>i. i < ?c \<Longrightarrow> ?n \<le> i \<Longrightarrow> h ! i = 0"
    by (auto simp: ring_of_def)
  have pc: "p < ?c" using p assms(1) by simp
  have "(p + 1) mod ?c = length (stream @ [x]) mod ?c"
    using p by (simp add: mod_Suc_eq)
  moreover have "h[p := x] ! (j mod ?c) = (stream @ [x]) ! j"
    if j: "j < length (stream @ [x])" "length (stream @ [x]) \<le> j + ?c" for j
  proof (cases "j = ?n")
    case True
    then show ?thesis using p pc by simp
  next
    case False
    with j have jn: "j < ?n" and close: "?n - j < ?c" by auto
    have "j mod ?c \<noteq> ?n mod ?c"
    proof
      assume "j mod ?c = ?n mod ?c"
      then have "?c dvd (?n - j)" using jn by (metis mod_eq_dvd_iff_nat less_imp_le)
      then have "?c \<le> ?n - j" using jn by (intro dvd_imp_le) auto
      with close show False by simp
    qed
    then have "h[p := x] ! (j mod ?c) = h ! (j mod ?c)" using p by simp
    also have "\<dots> = stream ! j" using old[of j] jn j(2) by simp
    finally show ?thesis using jn by (simp add: nth_append)
  qed
  moreover have "h[p := x] ! i = 0" if i: "i < ?c" "length (stream @ [x]) \<le> i" for i
  proof -
    from i have "?n < i" by simp
    with i(1) have "p = ?n" using p by simp
    with \<open>?n < i\<close> have "h[p := x] ! i = h ! i" by simp
    with zero[of i] i show ?thesis by simp
  qed
  ultimately show ?thesis by (simp add: ring_of_def)
qed

lemma ring_of_push_far:
  assumes "0 < length h" "ring_of h p stream"
  shows "ring_of (fst (push_far xs (h, p))) (snd (push_far xs (h, p))) (stream @ xs)"
  using assms
proof (induction xs arbitrary: h p stream)
  case Nil
  then show ?case by simp
next
  case (Cons x xs)
  have "ring_of (h[p := x]) ((p + 1) mod length h) (stream @ [x])"
    using Cons.prems by (rule ring_of_push1)
  from Cons.IH[OF _ this] Cons.prems(1) show ?case by simp
qed

lemma ring_of_replicate: "ring_of (replicate n 0) 0 []"
  by (simp add: ring_of_def)

lemma ring_of_pos: "0 < length h \<Longrightarrow> ring_of h p stream \<Longrightarrow> p < length h"
  by (simp add: ring_of_def)

lemma mod_neg_wrap:
  fixes a c :: int
  assumes "0 < c" "- c \<le> a" "a < 0"
  shows "a mod c = a + c"
proof -
  have "(a + c) mod c = a + c" using assms by (intro mod_pos_pos_trivial) auto
  then show ?thesis by simp
qed

lemma wrap_index_mod:
  assumes "0 < c"
  shows "wrap_index c pos off = nat ((int pos + off) mod int c)"
proof -
  let ?k = "int pos + off"
  show ?thesis
  proof (cases "0 \<le> ?k")
    case True
    then have "?k smod int c = ?k mod int c"
      using assms by (simp add: signed_modulo_int_def sgn_if)
    moreover have "0 \<le> ?k mod int c" using assms by simp
    ultimately show ?thesis by (simp add: wrap_index_def Let_def)
  next
    case False
    then have sm: "?k smod int c = - ((- ?k) mod int c)"
      using assms by (simp add: signed_modulo_int_def sgn_if)
    have nn: "0 \<le> (- ?k) mod int c" using assms by simp
    show ?thesis
    proof (cases "(- ?k) mod int c = 0")
      case True
      then have "?k mod int c = 0" by (metis mod_minus_cong mod_0 minus_minus minus_zero)
      with True sm show ?thesis by (simp add: wrap_index_def Let_def)
    next
      case nz: False
      with nn have pos: "0 < (- ?k) mod int c" by simp
      have "?k mod int c = int c - (- ?k) mod int c"
        using zmod_zminus1_eq_if[of "- ?k" "int c"] nz by (simp add: add.commute)
      with sm pos show ?thesis by (simp add: wrap_index_def Let_def)
    qed
  qed
qed

text \<open>What the inner loop reads, in terms of the far-end samples delivered so far.\<close>

lemma fx_at_stream:
  assumes ring: "ring_holds s stream"
      and cap: "nat (block_samples s + lag) \<le> length (far_hist s)" "0 < length (far_hist s)"
      and lag: "0 \<le> lag" "0 \<le> block_samples s" and i: "i < nat (block_samples s)"
  shows "fx_at s lag i =
           (if nat (block_samples s + lag) \<le> length stream + i
            then stream ! (length stream + i - nat (block_samples s + lag)) else 0)"
proof -
  let ?c = "length (far_hist s)" and ?n = "length stream" and ?d = "nat (block_samples s + lag)"
  from ring have p: "hist_pos s = ?n mod ?c"
    and old: "\<And>j. j < ?n \<Longrightarrow> ?n \<le> j + ?c \<Longrightarrow> far_hist s ! (j mod ?c) = stream ! j"
    and zero: "\<And>i. i < ?c \<Longrightarrow> ?n \<le> i \<Longrightarrow> far_hist s ! i = 0"
    by (auto simp: ring_holds_def ring_of_def)
  have d: "int ?d = block_samples s + lag" using lag by simp
  have id: "i < ?d" using i lag by simp
  have idx: "wrap_index ?c (hist_pos s) (- (block_samples s + lag) + int i)
               = nat ((int ?n + int i - int ?d) mod int ?c)"
  proof -
    have "(int (hist_pos s) + (- (block_samples s + lag) + int i)) mod int ?c
            = (int ?n mod int ?c + (int i - int ?d)) mod int ?c"
      using p d by (simp add: zmod_int algebra_simps)
    also have "\<dots> = (int ?n + (int i - int ?d)) mod int ?c" by (simp add: mod_add_left_eq)
    finally show ?thesis using cap(2) by (simp add: wrap_index_mod algebra_simps)
  qed
  show ?thesis
  proof (cases "?d \<le> ?n + i")
    case True
    let ?j = "?n + i - ?d"
    have "int ?n + int i - int ?d = int ?j" using True by simp
    then have "nat ((int ?n + int i - int ?d) mod int ?c) = ?j mod ?c"
      by (simp add: zmod_int[symmetric] del: of_nat_diff of_nat_add)
    moreover have "?j < ?n" using id True by simp
    moreover have "?n \<le> ?j + ?c" using cap(1) True by simp
    ultimately show ?thesis using old[of ?j] idx True by (simp add: fx_at_def)
  next
    case False
    then have neg: "int ?n + int i - int ?d < 0" by linarith
    have ge: "- int ?c \<le> int ?n + int i - int ?d" using cap(1) by linarith
    have "(int ?n + int i - int ?d) mod int ?c = int ?n + int i - int ?d + int ?c"
      using neg ge cap(2) by (intro mod_neg_wrap) auto
    then have wrap: "nat ((int ?n + int i - int ?d) mod int ?c) = ?n + i + ?c - ?d"
      using ge by linarith
    have slot: "n + k + c - d < c \<and> n \<le> n + k + c - d" if "d \<le> c" "\<not> d \<le> n + k"
      for n k c d :: nat using that by arith
    have "?n + i + ?c - ?d < ?c" "?n \<le> ?n + i + ?c - ?d"
      using slot[OF cap(1) False] by simp_all
    from zero[OF this] idx wrap False show ?thesis by (simp add: fx_at_def)
  qed
qed

subsection \<open>Sizes are kept\<close>

lemma wf_new: "wf_state (new_suppressor sr cfg)"
  by (simp add: wf_state_def new_suppressor_def Let_def reset_def set_config_def set_config_with_def
        less_max_iff_disj)

lemma wf_reset: "wf_state s \<Longrightarrow> wf_state (reset s)"
  by (auto simp: wf_state_def reset_def)

lemma wf_set_config: "wf_state s \<Longrightarrow> wf_state (set_config cfg s)"
  by (simp add: wf_state_def set_config_def set_config_with_def Let_def)

lemma push_block_hist:
  "far_hist (push_block s far)
     = fst (push_far (take (nat (block_samples s)) far) (far_hist s, hist_pos s))"
  "hist_pos (push_block s far)
     = snd (push_far (take (nat (block_samples s)) far) (far_hist s, hist_pos s))"
  by (simp_all add: push_block_def split: prod.splits)

lemma length_push_block [simp]: "length (far_hist (push_block s far)) = length (far_hist s)"
  by (simp add: push_block_hist push_far_length)

lemma hist_pos_push_block:
  assumes "hist_pos s < length (far_hist s)"
  shows "hist_pos (push_block s far)
           = (hist_pos s + length (take (nat (block_samples s)) far)) mod length (far_hist s)"
  using assms by (simp add: push_block_hist push_far_pos del: length_take)

lemma wf_push_block: "wf_state s \<Longrightarrow> wf_state (push_block s far)"
  by (simp add: wf_state_def hist_pos_push_block)

lemma process_block_hist [simp]:
  "far_hist (snd (process_block s far mic)) = far_hist (push_block s far)"
  "hist_pos (snd (process_block s far mic)) = hist_pos (push_block s far)"
  "fs (snd (process_block s far mic)) = fs s"
  "block_samples (snd (process_block s far mic)) = block_samples s"
  "max_lag_samples (snd (process_block s far mic)) = max_lag_samples s"
  "config (snd (process_block s far mic)) = config s"
  "atten_linear (snd (process_block s far mic)) = atten_linear s"
  by (simp_all add: process_block_state)

lemma wf_process_block: "wf_state s \<Longrightarrow> wf_state (snd (process_block s far mic))"
  using wf_push_block[of s far] by (simp add: wf_state_def)

lemma ring_holds_push_block:
  assumes "0 < length (far_hist s)" "ring_holds s stream"
  shows "ring_holds (push_block s far) (stream @ take (nat (block_samples s)) far)"
  using ring_of_push_far[OF assms(1) assms(2)[unfolded ring_holds_def]]
  by (simp add: ring_holds_def push_block_hist)

lemma wf_cap: "wf_state s \<Longrightarrow> 0 < length (far_hist s)"
  by (simp add: wf_state_def)

subsection \<open>Decision, hangover and gain\<close>

lemma detected_lag_candidate:
  assumes "echo_detected s mic"
  shows "0 \<le> fst (snd (lag_search s mic))"
    and "fst (snd (lag_search s mic)) \<le> max_lag_samples s"
    and "lag_step s dvd fst (snd (lag_search s mic))"
proof -
  from lag_search_cases[of s mic] assms obtain L where
    L: "lag_search s mic = (Score (score_at s mic L), L, far_pow_at s L)" "is_winner s mic L"
    by (auto simp: echo_detected_def)
  from L(2) have "visited s 0 L" by (simp add: is_winner_def set_lag_candidates)
  with L(1) show "0 \<le> fst (snd (lag_search s mic))"
    and "fst (snd (lag_search s mic)) \<le> max_lag_samples s"
    and "lag_step s dvd fst (snd (lag_search s mic))"
    by (simp_all add: visited_def)
qed

lemma reported_lag_detected:
  "estimated_lag_samples (fst (process_block s far mic)) \<noteq> - 1
     \<longleftrightarrow> echo_detected (push_block s far) mic"
  using detected_lag_candidate(1)[of "push_block s far" mic]
  by (auto simp: process_block_result)

lemma suppress_iff:
  "suppress (fst (process_block s far mic))
     \<longleftrightarrow> echo_detected (push_block s far) mic \<or> 0 < hang_cnt s"
  by (simp add: process_block_result hangover_step_def)

lemma hang_cnt_process_block:
  "hang_cnt (snd (process_block s far mic))
     = (if echo_detected (push_block s far) mic then hangover_blocks (config s)
        else if 0 < hang_cnt s then hang_cnt s - 1 else hang_cnt s)"
  by (simp add: process_block_state hangover_step_def)

lemma gate_gain_process_block:
  "gate_gain (snd (process_block s far mic)) = applied_gain (fst (process_block s far mic))"
  "applied_gain (fst (process_block s far mic))
     = smooth_gain s (suppress (fst (process_block s far mic)))"
  by (simp_all add: process_block_state process_block_result)

text \<open>A run in which no block is declared echo: the counter alone decides.\<close>

lemma quiet_run_suppress:
  assumes "\<forall>r \<in> set (fst (process_blocks s blocks)). estimated_lag_samples r = - 1"
      and "j < length blocks"
  shows "suppress (fst (process_blocks s blocks) ! j) \<longleftrightarrow> int j < hang_cnt s"
  using assms
proof (induction blocks arbitrary: s j)
  case Nil
  then show ?case by simp
next
  case (Cons b bs)
  obtain far mic where b: "b = (far, mic)" by (cases b)
  let ?r = "fst (process_block s far mic)" and ?s' = "snd (process_block s far mic)"
  have run: "fst (process_blocks s (b # bs)) = ?r # fst (process_blocks ?s' bs)"
    by (simp add: b split: prod.splits)
  from Cons.prems(1) run have quiet: "estimated_lag_samples ?r = - 1"
    and rest: "\<forall>r \<in> set (fst (process_blocks ?s' bs)). estimated_lag_samples r = - 1"
    by simp_all
  from quiet have nd: "\<not> echo_detected (push_block s far) mic"
    using reported_lag_detected[of s far mic] by simp
  show ?case
  proof (cases j)
    case 0
    with run nd show ?thesis by (simp add: suppress_iff)
  next
    case (Suc k)
    with Cons.prems(2) have "k < length bs" by simp
    from Cons.IH[OF rest this]
    have "suppress (fst (process_blocks ?s' bs) ! k) \<longleftrightarrow> int k < hang_cnt ?s'" .
    with nd Suc run show ?thesis by (auto simp: hang_cnt_process_block)
  qed
qed

lemma smooth_gain_bounds:
  assumes "atten_linear s \<le> gate_gain s" "gate_gain s \<le> 1"
      and "0 \<le> attack (config s)" "attack (config s) \<le> 1"
      and "0 \<le> release (config s)" "release (config s) \<le> 1"
  shows "atten_linear s \<le> smooth_gain s b \<and> smooth_gain s b \<le> 1"
proof -
  have conv: "a \<le> (1 - c) * g + c * t \<and> (1 - c) * g + c * t \<le> 1"
    if "a \<le> g" "g \<le> 1" "a \<le> t" "t \<le> 1" "0 \<le> c" "c \<le> 1" for a g t c :: real
  proof -
    have e1: "(1 - c) * g + c * t - a = (1 - c) * (g - a) + c * (t - a)"
      by (simp add: algebra_simps)
    have e2: "1 - ((1 - c) * g + c * t) = (1 - c) * (1 - g) + c * (1 - t)"
      by (simp add: algebra_simps)
    have p1: "0 \<le> (1 - c) * (g - a)" using that by (intro mult_nonneg_nonneg) auto
    have p2: "0 \<le> c * (t - a)" using that by (intro mult_nonneg_nonneg) auto
    have p3: "0 \<le> (1 - c) * (1 - g)" using that by (intro mult_nonneg_nonneg) auto
    have p4: "0 \<le> c * (1 - t)" using that by (intro mult_nonneg_nonneg) auto
    from e1 p1 p2 have "0 \<le> (1 - c) * g + c * t - a" by linarith
    moreover from e2 p3 p4 have "0 \<le> 1 - ((1 - c) * g + c * t)" by linarith
    ultimately show ?thesis by linarith
  qed
  from assms have a1: "atten_linear s \<le> 1" by simp
  let ?t = "if b then atten_linear s else 1"
  let ?c = "if ?t < gate_gain s then attack (config s) else release (config s)"
  have t: "atten_linear s \<le> ?t" "?t \<le> 1" using a1 by auto
  have c: "0 \<le> ?c" "?c \<le> 1" using assms by auto
  show ?thesis unfolding smooth_gain_def Let_def by (rule conv[OF assms(1,2) t c])
qed

lemma atten_linear_set_config: "atten_linear (set_config cfg s) = 10 powr (atten_db cfg / 20)"
  by (simp add: set_config_def set_config_with_def Let_def not_less)

lemma new_suppressor_fields:
  "gate_gain (new_suppressor sr cfg) = 1"
  "hang_cnt (new_suppressor sr cfg) = 0"
  "hist_pos (new_suppressor sr cfg) = 0"
  "config (new_suppressor sr cfg) = cfg"
  "atten_linear (new_suppressor sr cfg) = 10 powr (atten_db cfg / 20)"
  "fs (new_suppressor sr cfg) = sr"
  by (simp_all add: new_suppressor_def Let_def reset_def set_config_def set_config_with_def not_less)

subsection \<open>Sums and floors\<close>

lemma sum_list_upt_zero: "(\<And>i. i < n \<Longrightarrow> g i = (0::real)) \<Longrightarrow> (\<Sum>i\<leftarrow>[0..<n]. g i) = 0"
  by (induction n) auto

lemma sum_list_upt_nonneg: "(\<And>i. i < n \<Longrightarrow> 0 \<le> g i) \<Longrightarrow> 0 \<le> (\<Sum>i\<leftarrow>[0..<n]. g i :: real)"
  by (induction n) auto

lemma sum_list_upt_eq_0_iff:
  assumes "\<And>i. i < n \<Longrightarrow> 0 \<le> g i"
  shows "(\<Sum>i\<leftarrow>[0..<n]. g i :: real) = 0 \<longleftrightarrow> (\<forall>i<n. g i = 0)"
  using assms
proof (induction n)
  case 0
  then show ?case by simp
next
  case (Suc n)
  have nn: "0 \<le> (\<Sum>i\<leftarrow>[0..<n]. g i)" using Suc.prems by (intro sum_list_upt_nonneg) auto
  have gn: "0 \<le> g n" using Suc.prems by simp
  have "(\<Sum>i\<leftarrow>[0..<Suc n]. g i) = 0 \<longleftrightarrow> (\<Sum>i\<leftarrow>[0..<n]. g i) = 0 \<and> g n = 0"
    using nn gn by (simp add: add_nonneg_eq_0_iff)
  also have "\<dots> \<longleftrightarrow> (\<forall>i<n. g i = 0) \<and> g n = 0" using Suc.IH Suc.prems by simp
  also have "\<dots> \<longleftrightarrow> (\<forall>i<Suc n. g i = 0)" by (auto simp: less_Suc_eq)
  finally show ?case .
qed

lemma mic_pow_floor: "1 / 10 ^ 9 \<le> mic_pow n mic"
  by (simp add: mic_pow_def)

lemma mic_abs_floor: "1 / 10 ^ 9 \<le> mic_abs n mic"
  by (simp add: mic_abs_def)

lemma amdf_denom_pos: "0 < amdf_denom s mic lag"
proof -
  have "(1 / 10 ^ 9 :: real) \<le> amdf_denom s mic lag" by (simp add: amdf_denom_def)
  then show ?thesis by (simp add: less_le_trans[of 0 "1 / 10 ^ 9"])
qed

lemma ncc_denom_pos: "0 < ncc_denom s mic lag"
proof -
  have "(0::real) < 1 / 10 ^ 9" by simp
  then have "0 < far_pow_at s lag" "0 < mic_pow (nat (block_samples s)) mic"
    using far_pow_at_floor[of s lag] mic_pow_floor[of "nat (block_samples s)" mic]
    by (blast intro: less_le_trans)+
  then show ?thesis by (simp add: ncc_denom_def)
qed


lemma mic_abs_silence: "mic_abs n (replicate n 0) = 1 / 10 ^ 9"
  by (simp add: mic_abs_def sum_list_upt_zero)

subsection \<open>Scores\<close>

lemma ncc_score_silence:
  assumes "lag_metric (config s) \<noteq> kAMDF"
  shows "score_at s (silence s) lag = 0"
  using assms by (simp add: score_at_def silence_def sum_list_upt_zero)

lemma ncc_silence_not_detected:
  assumes "lag_metric (config s) \<noteq> kAMDF" "0 \<le> rho_thresh (config s)"
  shows "\<not> echo_detected s (silence s)"
  using lag_search_cases[of s "silence s"] assms
  by (auto simp: echo_detected_def ncc_score_silence)

lemma amdf_score_le_1: "lag_metric (config s) = kAMDF \<Longrightarrow> score_at s mic lag \<le> 1"
  by (simp add: score_at_def Let_def)

lemma amdf_score_eq_1_iff:
  assumes "lag_metric (config s) = kAMDF"
  shows "score_at s mic lag = 1 \<longleftrightarrow> window_matches s mic lag"
proof -
  let ?n = "nat (block_samples s)"
  let ?accum = "\<Sum>i\<leftarrow>[0..<?n]. \<bar>fx_at s lag i - mic ! i\<bar>"
  have nn: "0 \<le> ?accum" by (intro sum_list_upt_nonneg) simp
  have d: "0 < amdf_denom s mic lag" by (rule amdf_denom_pos)
  have q: "0 \<le> ?accum / amdf_denom s mic lag" using nn d by simp
  have "score_at s mic lag = 1 \<longleftrightarrow> ?accum / amdf_denom s mic lag = 0"
    using q assms by (auto simp: score_at_def Let_def)
  also have "\<dots> \<longleftrightarrow> ?accum = 0" using d by simp
  also have "\<dots> \<longleftrightarrow> (\<forall>i<?n. \<bar>fx_at s lag i - mic ! i\<bar> = 0)"
    by (intro sum_list_upt_eq_0_iff) simp
  also have "\<dots> \<longleftrightarrow> window_matches s mic lag"
    by (auto simp: window_matches_def list_all_iff)
  finally show ?thesis .
qed

lemma window_matches_far_pow:
  assumes "window_matches s mic lag"
  shows "far_pow_at s lag = mic_pow (nat (block_samples s)) mic"
proof -
  have "map (\<lambda>i. fx_at s lag i * fx_at s lag i) [0..<nat (block_samples s)]
        = map (\<lambda>i. mic ! i * mic ! i) [0..<nat (block_samples s)]"
    using assms by (intro map_cong) (auto simp: window_matches_def list_all_iff)
  then have "(\<Sum>i\<leftarrow>[0..<nat (block_samples s)]. fx_at s lag i * fx_at s lag i)
        = (\<Sum>i\<leftarrow>[0..<nat (block_samples s)]. mic ! i * mic ! i)"
    by (rule arg_cong)
  then show ?thesis by (simp only: far_pow_at_def mic_pow_def)
qed

text \<open>Every state has a stream of which its history is the ring.\<close>

lemma ring_of_exists:
  assumes "p < length h"
  shows "ring_of h p (map (\<lambda>j. h ! (j mod length h)) [0..<length h + p])"
  using assms by (simp add: ring_of_def)

lemma fx_at_pushed_block:
  assumes wf: "wf_state s" and len: "length far = nat (block_samples s)"
      and i: "i < nat (block_samples s)"
  shows "fx_at (push_block s far) 0 i = far ! i"
proof -
  from wf have cap: "0 < length (far_hist s)" and pos: "hist_pos s < length (far_hist s)"
    and b: "1 \<le> block_samples s"
    and sz: "length (far_hist s) = nat (max_lag_samples s) + nat (block_samples s) * 4"
    by (simp_all add: wf_state_def)
  define stream where "stream = map (\<lambda>j. far_hist s ! (j mod length (far_hist s)))
                                  [0..<length (far_hist s) + hist_pos s]"
  have "ring_holds s stream" unfolding ring_holds_def stream_def by (rule ring_of_exists[OF pos])
  from ring_holds_push_block[OF cap this, of far] len
  have ring: "ring_holds (push_block s far) (stream @ far)" by simp
  have "fx_at (push_block s far) 0 i =
          (if nat (block_samples (push_block s far) + 0) \<le> length (stream @ far) + i
           then (stream @ far) ! (length (stream @ far) + i - nat (block_samples (push_block s far) + 0))
           else 0)"
    using cap b sz i by (intro fx_at_stream[OF ring]) auto
  then show ?thesis using len i by (simp add: nth_append)
qed

lemma zero_is_candidate: "0 \<le> max_lag_samples s \<Longrightarrow> 0 \<in> set (lag_candidates s)"
  by (simp add: set_lag_candidates visited_def)

lemma candidate_nonneg: "l \<in> set (lag_candidates s) \<Longrightarrow> 0 \<le> l"
  by (simp add: set_lag_candidates visited_def)

text \<open>Under AMDF a window that equals the microphone block scores 1, the largest score
  there is; the winner is then the smallest candidate with such a window.\<close>

lemma amdf_exact_window_winner:
  assumes amdf: "lag_metric (config s) = kAMDF"
      and L: "L \<in> set (lag_candidates s)" "window_matches s mic L"
  shows "\<exists>W. is_winner s mic W \<and> W \<le> L \<and> score_at s mic W = 1 \<and> window_matches s mic W
             \<and> (\<forall>l \<in> set (lag_candidates s). l < W \<longrightarrow> \<not> window_matches s mic l)"
proof -
  from L(1) have "0 \<le> max_lag_samples s" by (simp add: set_lag_candidates visited_def)
  from lag_search_winner[OF this, of mic] obtain W where W: "is_winner s mic W" by blast
  have sL: "score_at s mic L = 1" using amdf L(2) by (simp add: amdf_score_eq_1_iff)
  from W L(1) have "score_at s mic L \<le> score_at s mic W" by (simp add: is_winner_def)
  with sL amdf_score_le_1[OF amdf, of mic W] have sW: "score_at s mic W = 1" by simp
  have "W \<le> L"
  proof (rule ccontr)
    assume "\<not> W \<le> L"
    with W L(1) have "score_at s mic L < score_at s mic W" by (simp add: is_winner_def)
    with sL sW show False by simp
  qed
  moreover have "\<not> window_matches s mic l" if "l \<in> set (lag_candidates s)" "l < W" for l
  proof
    assume "window_matches s mic l"
    then have "score_at s mic l = 1" using amdf by (simp add: amdf_score_eq_1_iff)
    moreover from W that have "score_at s mic l < score_at s mic W" by (simp add: is_winner_def)
    ultimately show False using sW by simp
  qed
  ultimately show ?thesis using W sW amdf by (auto simp: amdf_score_eq_1_iff)
qed

lemma delayed_block_nth:
  assumes "i < b" "b + L \<le> length xs"
  shows "delayed_block xs b L ! i = xs ! (length xs + i - (b + L))"
proof -
  have "delayed_block xs b L ! i = drop (length xs - (b + L)) xs ! i"
    using assms(1) by (simp add: delayed_block_def)
  also have "\<dots> = xs ! (length xs - (b + L) + i)" by (rule nth_drop) simp
  also have "length xs - (b + L) + i = length xs + i - (b + L)" using assms(2) by simp
  finally show ?thesis .
qed

lemma delayed_block_matches:
  assumes wf: "wf_state s" and ring: "ring_holds s stream"
      and len: "length far = nat (block_samples s)"
      and L: "L \<in> set (lag_candidates s)"
      and enough: "nat (block_samples s) + nat L \<le> length (stream @ far)"
  shows "window_matches (push_block s far)
           (delayed_block (stream @ far) (nat (block_samples s)) (nat L)) L"
proof -
  let ?s1 = "push_block s far" and ?st = "stream @ far" and ?b = "nat (block_samples s)"
  from wf have cap: "0 < length (far_hist s)" and b: "1 \<le> block_samples s"
    and sz: "length (far_hist s) = nat (max_lag_samples s) + nat (block_samples s) * 4"
    by (simp_all add: wf_state_def)
  from L have L0: "0 \<le> L" and Lmax: "L \<le> max_lag_samples s"
    by (simp_all add: set_lag_candidates visited_def)
  have d: "nat (block_samples s + L) = ?b + nat L" using b L0 by (simp add: nat_add_distrib)
  from ring_holds_push_block[OF cap ring, of far] len
  have ring1: "ring_holds ?s1 ?st" by simp
  have "fx_at ?s1 L i = delayed_block ?st ?b (nat L) ! i" if i: "i < ?b" for i
  proof -
    have "fx_at ?s1 L i =
          (if nat (block_samples ?s1 + L) \<le> length ?st + i
           then ?st ! (length ?st + i - nat (block_samples ?s1 + L)) else 0)"
      using cap b sz i L0 Lmax by (intro fx_at_stream[OF ring1]) auto
    also have "\<dots> = ?st ! (length ?st + i - (?b + nat L))" using d enough by simp
    also have "\<dots> = delayed_block ?st ?b (nat L) ! i"
      using delayed_block_nth[OF i enough] by simp
    finally show ?thesis .
  qed
  then show ?thesis by (simp add: window_matches_def list_all_iff)
qed

subsection \<open>Runs of silence\<close>

lemma silence_push_block [simp]: "silence (push_block s far) = silence s"
  by (simp add: silence_def)

lemma process_silence_fields [simp]:
  "config (process_silence s) = config s"
  "atten_linear (process_silence s) = atten_linear s"
  "block_samples (process_silence s) = block_samples s"
  "silence (process_silence s) = silence s"
  by (simp_all add: process_silence_def silence_def)


lemma silence_run_fields [simp]:
  "config ((process_silence ^^ n) s) = config s"
  "atten_linear ((process_silence ^^ n) s) = atten_linear s"
  "silence ((process_silence ^^ n) s) = silence s"
  by (induction n) simp_all


lemma ncc_silence_quiet:
  assumes "lag_metric (config s) \<noteq> kAMDF" "0 \<le> rho_thresh (config s)"
  shows "\<not> echo_detected (push_block s (silence s)) (silence s)"
  using ncc_silence_not_detected[of "push_block s (silence s)"] assms by simp

lemma ncc_silence_step:
  assumes "lag_metric (config s) \<noteq> kAMDF" "0 \<le> rho_thresh (config s)"
  shows "hang_cnt (process_silence s) = (if 0 < hang_cnt s then hang_cnt s - 1 else hang_cnt s)"
    and "gate_gain (process_silence s) = smooth_gain s (0 < hang_cnt s)"
    and "estimated_lag_samples (fst (process_block s (silence s) (silence s))) = - 1"
proof -
  note q = ncc_silence_quiet[OF assms]
  show "hang_cnt (process_silence s) = (if 0 < hang_cnt s then hang_cnt s - 1 else hang_cnt s)"
    using q by (simp add: process_silence_def hang_cnt_process_block)
  show "gate_gain (process_silence s) = smooth_gain s (0 < hang_cnt s)"
    using q by (simp add: process_silence_def gate_gain_process_block suppress_iff)
  show "estimated_lag_samples (fst (process_block s (silence s) (silence s))) = - 1"
    using q by (simp add: process_block_result)
qed





lemma window_matches_pushed_block:
  assumes "wf_state s" "length far = nat (block_samples s)"
  shows "window_matches (push_block s far) far 0"
  using fx_at_pushed_block[OF assms] by (simp add: window_matches_def list_all_iff)

lemma amdf_same_block_winner:
  assumes "wf_state s" "length far = nat (block_samples s)" "lag_metric (config s) = kAMDF"
  shows "is_winner (push_block s far) far 0" "score_at (push_block s far) far 0 = 1"
    "far_pow_at (push_block s far) 0 = mic_pow (nat (block_samples s)) far"
proof -
  let ?s1 = "push_block s far"
  from assms(1) have "0 \<le> max_lag_samples ?s1" by (simp add: wf_state_def)
  then have z: "0 \<in> set (lag_candidates ?s1)" by (rule zero_is_candidate)
  have m: "window_matches ?s1 far 0" using assms(1,2) by (rule window_matches_pushed_block)
  from amdf_exact_window_winner[of ?s1 0 far] assms(3) z m obtain W where
    W: "is_winner ?s1 far W" "W \<le> 0" "score_at ?s1 far W = 1" by auto
  from W(1) have "0 \<le> W" by (auto simp: is_winner_def dest: candidate_nonneg)
  with W(2) have "W = 0" by simp
  with W show "is_winner ?s1 far 0" "score_at ?s1 far 0 = 1" by simp_all
  show "far_pow_at ?s1 0 = mic_pow (nat (block_samples s)) far"
    using window_matches_far_pow[OF m] by simp
qed




subsection \<open>Fresh suppressors and runs of calls\<close>

lemma ring_holds_new: "ring_holds (new_suppressor sr cfg) []"
  by (simp add: ring_holds_def ring_of_def new_suppressor_def Let_def reset_def set_config_def set_config_with_def)

lemma ring_holds_process_block:
  assumes "wf_state s" "ring_holds s stream" "length far = nat (block_samples s)"
  shows "ring_holds (snd (process_block s far mic)) (stream @ far)"
  using ring_holds_push_block[OF wf_cap[OF assms(1)] assms(2), of far] assms(3)
  by (simp add: ring_holds_def)

lemma lag_candidates_push_block [simp]: "lag_candidates (push_block s far) = lag_candidates s"
  by (simp add: lag_candidates_def)

lemma lag_candidates_process_block [simp]:
  "lag_candidates (snd (process_block s far mic)) = lag_candidates s"
  by (simp add: lag_candidates_def lag_step_def)

text \<open>The first block after a fresh start: later lags look at zeros and at the head of
  the block.\<close>

lemma fx_at_first_block:
  assumes wf: "wf_state s" and ring: "ring_holds s []"
      and len: "length far = nat (block_samples s)"
      and l: "0 \<le> l" "l \<le> max_lag_samples s" and i: "i < nat (block_samples s)"
  shows "fx_at (push_block s far) l i = (if nat l \<le> i then far ! (i - nat l) else 0)"
proof -
  let ?s1 = "push_block s far"
  from wf have cap: "0 < length (far_hist s)" and b: "1 \<le> block_samples s"
    and sz: "length (far_hist s) = nat (max_lag_samples s) + nat (block_samples s) * 4"
    by (simp_all add: wf_state_def)
  from ring_holds_push_block[OF cap ring, of far] len
  have ring1: "ring_holds ?s1 far" by simp
  have d: "nat (block_samples s + l) = nat (block_samples s) + nat l"
    using b l(1) by (simp add: nat_add_distrib)
  have "fx_at ?s1 l i =
          (if nat (block_samples ?s1 + l) \<le> length far + i
           then far ! (length far + i - nat (block_samples ?s1 + l)) else 0)"
    using cap b sz i l by (intro fx_at_stream[OF ring1]) auto
  then show ?thesis using len d by simp
qed

lemma ncc_exact_window_score:
  assumes ncc: "lag_metric (config s) \<noteq> kAMDF" and m: "window_matches s mic lag"
      and p: "1 / 10 ^ 9 \<le> (\<Sum>i\<leftarrow>[0..<nat (block_samples s)]. mic ! i * mic ! i)"
  shows "score_at s mic lag = 1"
proof -
  let ?n = "nat (block_samples s)"
  let ?P = "\<Sum>i\<leftarrow>[0..<?n]. mic ! i * mic ! i"
  have "map (\<lambda>i. fx_at s lag i * mic ! i) [0..<?n] = map (\<lambda>i. mic ! i * mic ! i) [0..<?n]"
    using m by (intro map_cong) (auto simp: window_matches_def list_all_iff)
  then have dot: "(\<Sum>i\<leftarrow>[0..<?n]. fx_at s lag i * mic ! i) = ?P" by (rule arg_cong)
  have bp: "mic_pow ?n mic = ?P" using p by (simp add: mic_pow_def max_def)
  have fp: "far_pow_at s lag = ?P" using window_matches_far_pow[OF m] bp by simp
  have pos: "0 < ?P" using p by (simp add: less_le_trans[of 0 "1 / 10 ^ 9"])
  have "score_at s mic lag = ?P / sqrt (?P * ?P)"
    using ncc unfolding score_at_def ncc_denom_def Let_def fp bp dot by simp
  also have "\<dots> = 1" using pos by simp
  finally show ?thesis .
qed

lemma ncc_zero_window_score:
  assumes ncc: "lag_metric (config s) \<noteq> kAMDF"
      and z: "\<And>i. i < nat (block_samples s) \<Longrightarrow> fx_at s lag i = 0"
  shows "score_at s mic lag = 0"
  using assms by (simp add: score_at_def sum_list_upt_zero)

lemma process_blocks_Cons:
  "process_blocks s ((far, mic) # bs)
     = (fst (process_block s far mic) # fst (process_blocks (snd (process_block s far mic)) bs),
        snd (process_blocks (snd (process_block s far mic)) bs))"
  by (simp split: prod.splits)

text \<open>A run of all-zero blocks under NCC reports no lag.\<close>

lemma ncc_silent_run_quiet:
  assumes "lag_metric (config s) \<noteq> kAMDF" "0 \<le> rho_thresh (config s)"
  shows "list_all (\<lambda>r. estimated_lag_samples r = - 1)
           (fst (process_blocks s (replicate n (silence s, silence s))))"
  using assms
proof (induction n arbitrary: s)
  case 0
  then show ?case by simp
next
  case (Suc n)
  let ?s' = "snd (process_block s (silence s) (silence s))"
  have "list_all (\<lambda>r. estimated_lag_samples r = - 1)
           (fst (process_blocks ?s' (replicate n (silence ?s', silence ?s'))))"
    using Suc.prems by (intro Suc.IH) simp_all
  moreover have "silence ?s' = silence s" by (simp add: silence_def)
  moreover have "estimated_lag_samples (fst (process_block s (silence s) (silence s))) = - 1"
    using Suc.prems by (rule ncc_silence_step(3))
  ultimately show ?case by (simp add: process_blocks_Cons del: process_blocks.simps(2))
qed

lemma length_process_blocks [simp]: "length (fst (process_blocks s bs)) = length bs"
proof (induction bs arbitrary: s)
  case Nil
  then show ?case by simp
next
  case (Cons b bs)
  obtain far mic where "b = (far, mic)" by (cases b)
  with Cons show ?case by (simp add: process_blocks_Cons del: process_blocks.simps(2))
qed

subsection \<open>The example inputs evaluated\<close>

lemma new_suppressor_100:
  "block_samples (new_suppressor 100 cfg) = 1"
  "max_lag_samples (new_suppressor 100 cfg) = 8"
  "length (far_hist (new_suppressor 100 cfg)) = 12"
  by (simp_all add: new_suppressor_def Let_def reset_def set_config_def set_config_with_def trunc_int_def
        signed_divide_int_def)

lemma new_suppressor_16000:
  "block_samples (new_suppressor 16000 cfg) = 160"
  "max_lag_samples (new_suppressor 16000 cfg) = 1280"
  "length (far_hist (new_suppressor 16000 cfg)) = 1920"
  by (simp_all add: new_suppressor_def Let_def reset_def set_config_def set_config_with_def trunc_int_def
        signed_divide_int_def)

lemma atten_linear_minus_80: "(10::real) powr - 4 = 1 / 10000"
  by (simp add: powr_neg_numeral)

lemma example_amdf_fields:
  "wf_state example_amdf" "ring_holds example_amdf []"
  "block_samples example_amdf = 1" "max_lag_samples example_amdf = 8"
  "length (far_hist example_amdf) = 12"
  "config example_amdf = amdf_config"
  "gate_gain example_amdf = 1" "hang_cnt example_amdf = 0" "hist_pos example_amdf = 0"
  "atten_linear example_amdf = 1 / 10000"
  unfolding example_amdf_def
  by (simp_all add: wf_new ring_holds_new new_suppressor_100 new_suppressor_fields
        amdf_config_def default_config_def atten_linear_minus_80)

lemma amdf_config_fields:
  "lag_metric amdf_config = kAMDF" "rho_thresh amdf_config = 3 / 5"
  "power_ratio_alpha amdf_config = 13 / 10" "hangover_blocks amdf_config = 20"
  "attack amdf_config = 1 / 10" "release amdf_config = 1 / 100" "atten_db amdf_config = - 80"
  by (simp_all add: amdf_config_def default_config_def)

lemma default_config_fields:
  "lag_metric default_config = kNCC" "rho_thresh default_config = 3 / 5"
  "power_ratio_alpha default_config = 13 / 10" "hangover_blocks default_config = 20"
  "attack default_config = 1 / 10" "release default_config = 1 / 100"
  "atten_db default_config = - 80"
  by (simp_all add: default_config_def)

text \<open>The first block \<open>[1/2]\<close> on both inputs, AMDF.\<close>

lemma example_amdf_first:
  "is_winner (push_block example_amdf [1 / 2]) [1 / 2] 0"
  "score_at (push_block example_amdf [1 / 2]) [1 / 2] 0 = 1"
  "far_pow_at (push_block example_amdf [1 / 2]) 0 = 1 / 4"
  "echo_detected (push_block example_amdf [1 / 2]) [1 / 2]"
proof -
  let ?s1 = "push_block example_amdf [1 / 2]"
  have len: "length [1 / 2 :: real] = nat (block_samples example_amdf)"
    by (simp add: example_amdf_fields)
  have amdf: "lag_metric (config example_amdf) = kAMDF"
    by (simp add: example_amdf_fields amdf_config_fields)
  note w = amdf_same_block_winner[OF example_amdf_fields(1) len amdf]
  have bp: "mic_pow (nat (block_samples example_amdf)) [1 / 2] = 1 / 4"
    by (simp add: example_amdf_fields mic_pow_def)
  show "is_winner ?s1 [1 / 2] 0" by (rule w(1))
  show "score_at ?s1 [1 / 2] 0 = 1" by (rule w(2))
  show fp: "far_pow_at ?s1 0 = 1 / 4" using w(3) bp by simp
  show "echo_detected ?s1 [1 / 2]"
    using echo_detected_winner(1)[OF w(1)] w(2) fp bp
    by (simp add: example_amdf_fields amdf_config_fields)
qed

lemma example_lag_step: "lag_step (new_suppressor 100 cfg) = 1"
  by (simp add: lag_step_def new_suppressor_fields signed_divide_int_def)

lemma example_candidates:
  "0 \<in> set (lag_candidates (new_suppressor 100 cfg))"
  "1 \<in> set (lag_candidates (new_suppressor 100 cfg))"
  by (simp_all add: set_lag_candidates visited_def new_suppressor_100 example_lag_step)

text \<open>The state after the first block \<open>[1/2]\<close>, and the second block.\<close>

lemma example_amdf_second:
  "wf_state (snd (process_block example_amdf [1 / 2] mic))"
  "ring_holds (snd (process_block example_amdf [1 / 2] mic)) [1 / 2]"
  "block_samples (snd (process_block example_amdf [1 / 2] mic)) = 1"
  "max_lag_samples (snd (process_block example_amdf [1 / 2] mic)) = 8"
  "config (snd (process_block example_amdf [1 / 2] mic)) = amdf_config"
  "0 \<in> set (lag_candidates (snd (process_block example_amdf [1 / 2] mic)))"
  "1 \<in> set (lag_candidates (snd (process_block example_amdf [1 / 2] mic)))"
proof -
  let ?s = "snd (process_block example_amdf [1 / 2] mic)"
  show "wf_state ?s" using example_amdf_fields(1) by (rule wf_process_block)
  have "ring_holds ?s ([] @ [1 / 2])"
    using example_amdf_fields(1,2) by (rule ring_holds_process_block)
       (simp add: example_amdf_fields)
  then show "ring_holds ?s [1 / 2]" by simp
  show "block_samples ?s = 1" "max_lag_samples ?s = 8" "config ?s = amdf_config"
    by (simp_all add: example_amdf_fields)
  show "0 \<in> set (lag_candidates ?s)" "1 \<in> set (lag_candidates ?s)"
    using example_candidates[of amdf_config] by (simp_all add: example_amdf_def)
qed

lemma example_amdf_tie:
  fixes mic0 :: "real list"
  defines "s \<equiv> snd (process_block example_amdf [1 / 2] mic0)"
  shows "is_winner (push_block s [1 / 2]) [1 / 2] 0"
    and "score_at (push_block s [1 / 2]) [1 / 2] 0 = 1"
    and "far_pow_at (push_block s [1 / 2]) 0 = 1 / 4"
    and "window_matches (push_block s [1 / 2]) [1 / 2] 1"
    and "score_at (push_block s [1 / 2]) [1 / 2] 1 = 1"
    and "far_pow_at (push_block s [1 / 2]) 1 = 1 / 4"
    and "echo_detected (push_block s [1 / 2]) [1 / 2]"
proof -
  let ?s2 = "push_block s [1 / 2]"
  note f = example_amdf_second[of mic0, folded s_def]
  have len: "length [1 / 2 :: real] = nat (block_samples s)" by (simp add: f)
  have amdf: "lag_metric (config s) = kAMDF" by (simp add: f amdf_config_fields)
  have amdf2: "lag_metric (config ?s2) = kAMDF" using amdf by simp
  note w = amdf_same_block_winner[OF f(1) len amdf]
  have bp: "mic_pow (nat (block_samples s)) [1 / 2] = 1 / 4"
    by (simp add: f mic_pow_def)
  show w0: "is_winner ?s2 [1 / 2] 0" by (rule w(1))
  show s0: "score_at ?s2 [1 / 2] 0 = 1" by (rule w(2))
  show fp0: "far_pow_at ?s2 0 = 1 / 4" using w(3) bp by simp
  have "window_matches ?s2 (delayed_block ([1 / 2] @ [1 / 2]) (nat (block_samples s)) (nat 1)) 1"
    using f(1,2) len f(7) by (rule delayed_block_matches) (simp add: f)
  then show m1: "window_matches ?s2 [1 / 2] 1" by (simp add: f delayed_block_def)
  then show "score_at ?s2 [1 / 2] 1 = 1" using amdf2 by (simp add: amdf_score_eq_1_iff)
  show "far_pow_at ?s2 1 = 1 / 4" using window_matches_far_pow[OF m1] bp by simp
  show "echo_detected ?s2 [1 / 2]"
    using echo_detected_winner(1)[OF w0] s0 fp0 bp by (simp add: f amdf_config_fields)
qed

lemma ncc_silence_first_gain:
  assumes "lag_metric (config s) \<noteq> kAMDF" "0 \<le> rho_thresh (config s)"
      and "hang_cnt s = 0" "gate_gain s = 1"
  shows "applied_gain (fst (process_block s (silence s) (silence s))) = 1"
    and "\<not> suppress (fst (process_block s (silence s) (silence s)))"
proof -
  note q = ncc_silence_quiet[OF assms(1,2)]
  show ns: "\<not> suppress (fst (process_block s (silence s) (silence s)))"
    using q assms(3) by (simp add: suppress_iff)
  then show "applied_gain (fst (process_block s (silence s) (silence s))) = 1"
    using assms(4) by (simp add: gate_gain_process_block smooth_gain_def Let_def)
qed

lemma example_ncc_fields:
  "wf_state example_ncc" "ring_holds example_ncc []"
  "block_samples example_ncc = 1" "max_lag_samples example_ncc = 8"
  "config example_ncc = default_config"
  "gate_gain example_ncc = 1" "hang_cnt example_ncc = 0"
  unfolding example_ncc_def
  by (simp_all add: wf_new ring_holds_new new_suppressor_100 new_suppressor_fields)

text \<open>The first block \<open>[1/2]\<close> on both inputs, NCC: lag 0 scores 1, every later lag looks
  at a zero and scores 0.\<close>

lemma example_ncc_first:
  "is_winner (push_block example_ncc [1 / 2]) [1 / 2] 0"
  "score_at (push_block example_ncc [1 / 2]) [1 / 2] 0 = 1"
  "far_pow_at (push_block example_ncc [1 / 2]) 0 = 1 / 4"
  "echo_detected (push_block example_ncc [1 / 2]) [1 / 2]"
  "estimated_lag_samples (fst (process_block example_ncc [1 / 2] [1 / 2])) = 0"
proof -
  let ?s1 = "push_block example_ncc [1 / 2]"
  note f = example_ncc_fields
  have len: "length [1 / 2 :: real] = nat (block_samples example_ncc)" by (simp add: f)
  have ncc: "lag_metric (config ?s1) \<noteq> kAMDF" by (simp add: f default_config_fields)
  have m0: "window_matches ?s1 [1 / 2] 0" using f(1) len by (rule window_matches_pushed_block)
  have bp: "mic_pow (nat (block_samples example_ncc)) [1 / 2] = 1 / 4"
    by (simp add: f mic_pow_def)
  show s0: "score_at ?s1 [1 / 2] 0 = 1"
    using ncc m0 by (rule ncc_exact_window_score) (simp add: f)
  have later: "score_at ?s1 [1 / 2] l = 0" if "l \<in> set (lag_candidates ?s1)" "l \<noteq> 0" for l
  proof -
    from that have l: "0 < l" "l \<le> max_lag_samples example_ncc"
      using candidate_nonneg[of l ?s1] by (simp_all add: set_lag_candidates visited_def)
    have "fx_at ?s1 l i = 0" if "i < nat (block_samples ?s1)" for i
      using fx_at_first_block[OF f(1,2) len _ l(2), of i] l(1) that by (simp add: f)
    with ncc show ?thesis by (rule ncc_zero_window_score)
  qed
  have z: "0 \<in> set (lag_candidates ?s1)"
    by (rule zero_is_candidate) (simp add: f)
  show w0: "is_winner ?s1 [1 / 2] 0"
    unfolding is_winner_def
  proof (intro conjI ballI impI)
    show "0 \<in> set (lag_candidates ?s1)" by (rule z)
    show "score_at ?s1 [1 / 2] l \<le> score_at ?s1 [1 / 2] 0" if "l \<in> set (lag_candidates ?s1)" for l
      using later[OF that] s0 by (cases "l = 0") simp_all
    show "score_at ?s1 [1 / 2] l < score_at ?s1 [1 / 2] 0"
      if "l \<in> set (lag_candidates ?s1)" "l < 0" for l
      using candidate_nonneg[OF that(1)] that(2) by simp
  qed
  show fp: "far_pow_at ?s1 0 = 1 / 4" using window_matches_far_pow[OF m0] bp by simp
  show d: "echo_detected ?s1 [1 / 2]"
    using echo_detected_winner(1)[OF w0] s0 fp bp by (simp add: f default_config_fields)
  show "estimated_lag_samples (fst (process_block example_ncc [1 / 2] [1 / 2])) = 0"
    using d echo_detected_winner(2)[OF w0] by (simp add: process_block_result)
qed

lemma example_ncc_quiet_run:
  "list_all (\<lambda>r. estimated_lag_samples r = - 1)
     (fst (process_blocks (snd (process_block example_ncc [1 / 2] [1 / 2]))
            (replicate n ([0], [0]))))"
proof -
  let ?s = "snd (process_block example_ncc [1 / 2] [1 / 2])"
  have "silence ?s = [0]" by (simp add: silence_def example_ncc_fields)
  moreover have "list_all (\<lambda>r. estimated_lag_samples r = - 1)
     (fst (process_blocks ?s (replicate n (silence ?s, silence ?s))))"
    by (rule ncc_silent_run_quiet) (simp_all add: example_ncc_fields default_config_fields)
  ultimately show ?thesis by simp
qed

lemma pushed_block_at_cursor:
  assumes wf: "wf_state s" and ring: "ring_holds s stream"
      and len: "length far = nat (block_samples s)" and i: "i < nat (block_samples s)"
  shows "far_hist (push_block s far) ! ((hist_pos s + i) mod length (far_hist s)) = far ! i"
proof -
  let ?c = "length (far_hist s)" and ?n = "length stream"
  from wf have cap: "0 < ?c" and sz: "?c = nat (max_lag_samples s) + nat (block_samples s) * 4"
    by (simp_all add: wf_state_def)
  from ring have p: "hist_pos s = ?n mod ?c" by (simp add: ring_holds_def ring_of_def)
  from ring_holds_push_block[OF cap ring, of far] len
  have "ring_of (far_hist (push_block s far)) (hist_pos (push_block s far)) (stream @ far)"
    by (simp add: ring_holds_def)
  then have "far_hist (push_block s far) ! ((?n + i) mod ?c) = (stream @ far) ! (?n + i)"
    using i len sz by (simp add: ring_of_def)
  moreover have "(hist_pos s + i) mod ?c = (?n + i) mod ?c" using p by (simp add: mod_add_left_eq)
  ultimately show ?thesis by (simp add: nth_append)
qed

subsection \<open>The loop as a fold over the candidates\<close>

lemma lag_loop_foldl:
  "lag_loop s mic lag best
     = foldl (keep_best s mic) best
         (map (\<lambda>k. lag + int k * lag_step s)
            [0..<nat ((max_lag_samples s - lag) div lag_step s + 1)])"
proof (induction s mic lag best rule: lag_loop.induct)
  case (1 s mic lag best)
  let ?st = "lag_step s"
  let ?n = "\<lambda>lag. nat ((max_lag_samples s - lag) div ?st + 1)"
  have st: "0 < ?st" by (rule lag_step_pos)
  show ?case
  proof (cases "lag \<le> max_lag_samples s")
    case False
    then have "(max_lag_samples s - lag) div ?st < 0"
      using st by (simp add: div_neg_pos_less0)
    then have "?n lag = 0" by simp
    with False show ?thesis by (simp add: lag_loop.simps)
  next
    case True
    have "(max_lag_samples s - lag) div ?st = (max_lag_samples s - (lag + ?st)) div ?st + 1"
      using div_add_self2[of ?st "max_lag_samples s - (lag + ?st)"] st by (simp add: algebra_simps)
    moreover have "0 \<le> (max_lag_samples s - lag) div ?st"
      using True st by (simp add: pos_imp_zdiv_nonneg_iff)
    ultimately have n: "?n lag = Suc (?n (lag + ?st))" by simp
    have "map (\<lambda>k. lag + int k * ?st) [0..<Suc (?n (lag + ?st))]
            = lag # map (\<lambda>k. lag + ?st + int k * ?st) [0..<?n (lag + ?st)]"
      by (simp add: upt_conv_Cons map_Suc_upt[symmetric] algebra_simps del: upt_Suc)
    with n have lst: "map (\<lambda>k. lag + int k * ?st) [0..<?n lag]
            = lag # map (\<lambda>k. lag + ?st + int k * ?st) [0..<?n (lag + ?st)]"
      by simp
    have kb: "(if exceeds (score_at s mic lag) (fst best)
               then (Score (score_at s mic lag), lag, far_pow_at s lag) else best)
              = keep_best s mic best lag"
      by (simp add: keep_best_def)
    have "lag_loop s mic lag best = lag_loop s mic (lag + ?st) (keep_best s mic best lag)"
      using True by (subst lag_loop.simps) (simp only: kb if_True)
    also have "\<dots> = foldl (keep_best s mic) (keep_best s mic best lag)
                       (map (\<lambda>k. lag + ?st + int k * ?st) [0..<?n (lag + ?st)])"
      using "1.IH"[OF True] unfolding kb .
    also have "\<dots> = foldl (keep_best s mic) best (map (\<lambda>k. lag + int k * ?st) [0..<?n lag])"
      unfolding lst by simp
    finally show ?thesis .
  qed
qed

lemma lag_search_foldl:
  "lag_search s mic
     = foldl (keep_best s mic) (MinusInfinity, 0, 1 / 10 ^ 9) (lag_candidates s)"
  using lag_loop_foldl[of s mic 0] by (simp add: lag_search_def lag_candidates_def)

text \<open>After any run of calls from a state whose history is the ring of \<open>stream\<close>.\<close>

lemma ring_holds_process_blocks:
  assumes "wf_state s" "ring_holds s stream"
      and "list_all (\<lambda>b. length (fst b) = nat (block_samples s)) blocks"
  shows "wf_state (snd (process_blocks s blocks))
         \<and> ring_holds (snd (process_blocks s blocks)) (stream @ concat (map fst blocks))"
  using assms
proof (induction blocks arbitrary: s stream)
  case Nil
  then show ?case by simp
next
  case (Cons b bs)
  obtain far mic where b: "b = (far, mic)" by (cases b)
  let ?s' = "snd (process_block s far mic)"
  from Cons.prems(3) b have len: "length far = nat (block_samples s)"
    and rest: "list_all (\<lambda>b. length (fst b) = nat (block_samples ?s')) bs" by simp_all
  have wf': "wf_state ?s'" using Cons.prems(1) by (rule wf_process_block)
  have ring': "ring_holds ?s' (stream @ far)"
    using Cons.prems(1,2) len by (rule ring_holds_process_block)
  from Cons.IH[OF wf' ring' rest] show ?case
    by (simp add: b process_blocks_Cons del: process_blocks.simps(2))
qed

subsection \<open>Configurations applied\<close>

lemma set_config_fields:
  "fs (set_config cfg s) = fs s"
  "block_samples (set_config cfg s) = block_samples s"
  "max_lag_samples (set_config cfg s) = max_lag_samples s"
  "config (set_config cfg s) = cfg"
  "far_hist (set_config cfg s) = far_hist s"
  "hist_pos (set_config cfg s) = hist_pos s"
  "gate_gain (set_config cfg s) = gate_gain s"
  "hang_cnt (set_config cfg s) = hang_cnt s"
  by (simp_all add: set_config_def set_config_with_def Let_def)

lemma negative_hang_config_fields:
  "lag_metric negative_hang_config = kAMDF" "rho_thresh negative_hang_config = 3 / 5"
  "power_ratio_alpha negative_hang_config = 13 / 10" "hangover_blocks negative_hang_config = - 3"
  by (simp_all add: negative_hang_config_def amdf_config_def default_config_def)


subsection \<open>Silence, continued\<close>





subsection \<open>Copies of the newest block\<close>

text \<open>The first block after a fresh start, one sample per block: lag 0 looks at the sample
  just written, every later lag at a zero.\<close>

lemma fx_at_first_sample:
  assumes "wf_state s" "ring_holds s []" "block_samples s = 1"
      and "l \<in> set (lag_candidates s)"
  shows "fx_at (push_block s [x]) l 0 = (if l = 0 then x else 0)"
proof -
  from assms(4) have l: "0 \<le> l" "l \<le> max_lag_samples s"
    by (simp_all add: set_lag_candidates visited_def)
  have len: "length [x] = nat (block_samples s)" using assms(3) by simp
  have "fx_at (push_block s [x]) l 0 = (if nat l \<le> 0 then [x] ! (0 - nat l) else 0)"
    using assms(1,2) len l by (rule fx_at_first_block) (simp add: assms(3))
  then show ?thesis using l(1) by auto
qed

lemma amdf_first_sample_score:
  assumes "wf_state s" "ring_holds s []" "block_samples s = 1"
      and "lag_metric (config s) = kAMDF"
      and "l \<in> set (lag_candidates s)" and "1 / 10 ^ 9 \<le> m" "m \<le> x"
  shows "score_at (push_block s [x]) [m] l = (if l = 0 then 1 - (x - m) / (m + x) else 0)"
proof -
  have fx: "fx_at (push_block s [x]) l 0 = (if l = 0 then x else 0)"
    using assms(1,2,3,5) by (rule fx_at_first_sample)
  have m0: "0 < m" using assms(6) by (simp add: less_le_trans[of 0 "1 / 10 ^ 9"])
  have ma: "mic_abs (nat (block_samples (push_block s [x]))) [m] = m"
    using assms(3,6) m0 by (simp add: mic_abs_def max_def)
  have d: "amdf_denom (push_block s [x]) [m] l = (if l = 0 then m + x else m)"
    unfolding amdf_denom_def ma using assms(3,6,7) m0 by (simp add: fx max_def)
  have q: "0 \<le> (x - m) / (m + x)" "(x - m) / (m + x) \<le> 1" using m0 assms(7) by simp_all
  show ?thesis
  proof (cases "l = 0")
    case True
    with fx have "fx_at (push_block s [x]) 0 0 = x" by simp
    with True d q assms(3,4,7) show ?thesis by (simp add: score_at_def Let_def)
  next
    case False
    with fx have "fx_at (push_block s [x]) l 0 = 0" by simp
    with False d m0 assms(3,4) show ?thesis by (simp add: score_at_def Let_def)
  qed
qed

lemma ncc_quiet_window_score:
  assumes ncc: "lag_metric (config s) \<noteq> kAMDF" and m: "window_matches s mic lag"
      and p: "(\<Sum>i\<leftarrow>[0..<nat (block_samples s)]. mic ! i * mic ! i) \<le> 1 / 10 ^ 9"
  shows "score_at s mic lag
           = (\<Sum>i\<leftarrow>[0..<nat (block_samples s)]. mic ! i * mic ! i) * 10 ^ 9"
proof -
  let ?n = "nat (block_samples s)"
  let ?P = "\<Sum>i\<leftarrow>[0..<?n]. mic ! i * mic ! i"
  define F :: real where "F = 1 / 10 ^ 9"
  have "map (\<lambda>i. fx_at s lag i * mic ! i) [0..<?n] = map (\<lambda>i. mic ! i * mic ! i) [0..<?n]"
    using m by (intro map_cong) (auto simp: window_matches_def list_all_iff)
  then have dot: "(\<Sum>i\<leftarrow>[0..<?n]. fx_at s lag i * mic ! i) = ?P" by (rule arg_cong)
  have bp: "mic_pow ?n mic = F" using p by (simp add: mic_pow_def max_def F_def)
  have fp: "far_pow_at s lag = F" using window_matches_far_pow[OF m] bp by simp
  have F0: "0 \<le> F" by (simp add: F_def)
  have "score_at s mic lag = ?P / sqrt (F * F)"
    using ncc unfolding score_at_def ncc_denom_def Let_def fp bp dot by simp
  also have "sqrt (F * F) = F" using F0 by simp
  also have "?P / F = ?P * 10 ^ 9" by (simp add: F_def)
  finally show ?thesis .
qed

text \<open>A quarter-scale copy of the newest block under AMDF, and an exact copy below the
  power floor under NCC.\<close>

lemma example_amdf_scaled:
  "score_at (push_block example_amdf [1 / 2]) [1 / 8] 0 = 2 / 5"
  "far_pow_at (push_block example_amdf [1 / 2]) 0 = 1 / 4"
  "\<not> echo_detected (push_block example_amdf [1 / 2]) [1 / 8]"
  "estimated_lag_samples (fst (process_block example_amdf [1 / 2] [1 / 8])) = - 1"
proof -
  let ?s1 = "push_block example_amdf [1 / 2]"
  note f = example_amdf_fields
  have amdf: "lag_metric (config example_amdf) = kAMDF" by (simp add: f amdf_config_fields)
  have sc: "score_at ?s1 [1 / 8] l = (if l = 0 then 1 - (1 / 2 - 1 / 8) / (1 / 8 + 1 / 2) else 0)"
    if "l \<in> set (lag_candidates example_amdf)" for l
    using f(1,2,3) amdf that by (rule amdf_first_sample_score) simp_all
  have z: "0 \<in> set (lag_candidates example_amdf)"
    by (rule zero_is_candidate) (simp add: f)
  from sc[OF z] show s0: "score_at ?s1 [1 / 8] 0 = 2 / 5" by simp
  have len: "length [1 / 2 :: real] = nat (block_samples example_amdf)" by (simp add: f)
  have "window_matches ?s1 [1 / 2] 0" using f(1) len by (rule window_matches_pushed_block)
  from window_matches_far_pow[OF this]
  show "far_pow_at ?s1 0 = 1 / 4" by (simp add: f mic_pow_def)
  have w0: "is_winner ?s1 [1 / 8] 0"
    unfolding is_winner_def
  proof (intro conjI ballI impI)
    show "0 \<in> set (lag_candidates ?s1)" using z by simp
    show "score_at ?s1 [1 / 8] l \<le> score_at ?s1 [1 / 8] 0" if "l \<in> set (lag_candidates ?s1)" for l
    proof -
      from that have "l \<in> set (lag_candidates example_amdf)" by simp
      from sc[OF this] s0 show ?thesis by (cases "l = 0") simp_all
    qed
    show "score_at ?s1 [1 / 8] l < score_at ?s1 [1 / 8] 0"
      if "l \<in> set (lag_candidates ?s1)" "l < 0" for l
      using candidate_nonneg[OF that(1)] that(2) by simp
  qed
  show nd: "\<not> echo_detected ?s1 [1 / 8]"
    using echo_detected_winner(1)[OF w0] s0 by (simp add: f amdf_config_fields)
  then show "estimated_lag_samples (fst (process_block example_amdf [1 / 2] [1 / 8])) = - 1"
    by (simp add: process_block_result)
qed

lemma example_ncc_quiet:
  "window_matches (push_block example_ncc [1 / 100000]) [1 / 100000] 0"
  "score_at (push_block example_ncc [1 / 100000]) [1 / 100000] 0 = 1 / 10"
  "far_pow_at (push_block example_ncc [1 / 100000]) 0 = 1 / 10 ^ 9"
  "\<not> echo_detected (push_block example_ncc [1 / 100000]) [1 / 100000]"
  "estimated_lag_samples (fst (process_block example_ncc [1 / 100000] [1 / 100000])) = - 1"
proof -
  let ?x = "1 / 100000 :: real"
  let ?s1 = "push_block example_ncc [?x]"
  note f = example_ncc_fields
  have len: "length [?x] = nat (block_samples example_ncc)" by (simp add: f)
  have ncc: "lag_metric (config ?s1) \<noteq> kAMDF" by (simp add: f default_config_fields)
  show m0: "window_matches ?s1 [?x] 0" using f(1) len by (rule window_matches_pushed_block)
  have "score_at ?s1 [?x] 0 = (\<Sum>i\<leftarrow>[0..<nat (block_samples ?s1)]. [?x] ! i * [?x] ! i) * 10 ^ 9"
    using ncc m0 by (rule ncc_quiet_window_score) (simp add: f)
  then show s0: "score_at ?s1 [?x] 0 = 1 / 10" by (simp add: f)
  from window_matches_far_pow[OF m0]
  show fp: "far_pow_at ?s1 0 = 1 / 10 ^ 9" by (simp add: f mic_pow_def)
  have later: "score_at ?s1 [?x] l = 0" if "l \<in> set (lag_candidates ?s1)" "l \<noteq> 0" for l
  proof -
    from that(1) have c: "l \<in> set (lag_candidates example_ncc)" by simp
    have "fx_at ?s1 l 0 = (if l = 0 then ?x else 0)"
      using f(1,2,3) c by (rule fx_at_first_sample)
    with that(2) have "fx_at ?s1 l i = 0" if "i < nat (block_samples ?s1)" for i
      using that by (simp add: f)
    with ncc show ?thesis by (rule ncc_zero_window_score)
  qed
  have z: "0 \<in> set (lag_candidates ?s1)"
    by (rule zero_is_candidate) (simp add: f)
  have w0: "is_winner ?s1 [?x] 0"
    unfolding is_winner_def
  proof (intro conjI ballI impI)
    show "0 \<in> set (lag_candidates ?s1)" by (rule z)
    show "score_at ?s1 [?x] l \<le> score_at ?s1 [?x] 0" if "l \<in> set (lag_candidates ?s1)" for l
      using later[OF that] s0 by (cases "l = 0") simp_all
    show "score_at ?s1 [?x] l < score_at ?s1 [?x] 0"
      if "l \<in> set (lag_candidates ?s1)" "l < 0" for l
      using candidate_nonneg[OF that(1)] that(2) by simp
  qed
  show nd: "\<not> echo_detected ?s1 [?x]"
    using echo_detected_winner(1)[OF w0] s0 by (simp add: f default_config_fields)
  then show "estimated_lag_samples (fst (process_block example_ncc [?x] [?x])) = - 1"
    by (simp add: process_block_result)
qed

section \<open>The claims\<close>

subsection \<open>The echo decision\<close>

text \<open>
  Claim C1. On the state that holds the new far-end block there is a winning lag (the
  smallest candidate with the best score over all candidates), and echo is declared
  exactly when its score lies strictly above the threshold and the floored microphone
  power lies strictly below the power-ratio ceiling times the floored reference power
  at that lag; the lag reported is the winning lag when echo is declared and \<open>- 1\<close>
  otherwise.
\<close>

theorem echo_decision_rule:
  assumes "0 \<le> max_lag_samples s"
  shows "(\<exists>L. is_winner (push_block s far) mic L)
     \<and> (\<forall>L. is_winner (push_block s far) mic L \<longrightarrow>
          (echo_detected (push_block s far) mic \<longleftrightarrow>
             rho_thresh (config s) < score_at (push_block s far) mic L
             \<and> mic_pow (nat (block_samples s)) mic
                 < power_ratio_alpha (config s) * far_pow_at (push_block s far) L)
          \<and> estimated_lag_samples (fst (process_block s far mic))
              = (if echo_detected (push_block s far) mic then L else - 1))"
proof -
  let ?s1 = "push_block s far"
  have "0 \<le> max_lag_samples ?s1" using assms by simp
  from lag_search_winner[OF this, of mic] have ex: "\<exists>L. is_winner ?s1 mic L" by blast
  moreover have "\<forall>L. is_winner (push_block s far) mic L \<longrightarrow>
          (echo_detected (push_block s far) mic \<longleftrightarrow>
             rho_thresh (config s) < score_at (push_block s far) mic L
             \<and> mic_pow (nat (block_samples s)) mic
                 < power_ratio_alpha (config s) * far_pow_at (push_block s far) L)
          \<and> estimated_lag_samples (fst (process_block s far mic))
              = (if echo_detected (push_block s far) mic then L else - 1)"
    using echo_detected_winner[of ?s1 mic] by (simp add: process_block_result)
  ultimately show ?thesis by blast
qed

text \<open>The rule at work: the first block \<open>[1/2]\<close> on both inputs is declared echo at lag 0.\<close>

theorem echo_decision_rule_witness:
  "0 \<le> max_lag_samples example_amdf
   \<and> is_winner (push_block example_amdf [1 / 2]) [1 / 2] 0
   \<and> echo_detected (push_block example_amdf [1 / 2]) [1 / 2]
   \<and> estimated_lag_samples (fst (process_block example_amdf [1 / 2] [1 / 2])) = 0"
proof -
  have h: "0 \<le> max_lag_samples example_amdf" by (simp add: example_amdf_fields)
  from echo_decision_rule[OF h, of "[1 / 2]" "[1 / 2]"] example_amdf_first(1,4)
  have "estimated_lag_samples (fst (process_block example_amdf [1 / 2] [1 / 2])) = 0"
    by auto
  with h example_amdf_first(1,4) show ?thesis by simp
qed

subsection \<open>Silence\<close>




subsection \<open>Hangover\<close>

text \<open>
  Claim C3, as the code has it. After a block on which echo is detected, a run of blocks
  without detection keeps suppression active on exactly the first \<open>H\<close> of them, \<open>H\<close> the
  configured hangover length: the \<open>j\<close>-th block of the run, counted from 0, is suppressed
  exactly when \<open>j < H\<close>, so the release comes on block number \<open>H + 1\<close> of the run.
\<close>

theorem hangover_holds_H_blocks:
  assumes "estimated_lag_samples (fst (process_block s far mic)) \<noteq> - 1"
      and "\<forall>r \<in> set (fst (process_blocks (snd (process_block s far mic)) blocks)).
             estimated_lag_samples r = - 1"
      and "j < length blocks"
  shows "suppress (fst (process_block s far mic))
         \<and> (suppress (fst (process_blocks (snd (process_block s far mic)) blocks) ! j)
              \<longleftrightarrow> int j < hangover_blocks (config s))"
proof -
  from assms(1) have d: "echo_detected (push_block s far) mic"
    by (simp add: reported_lag_detected)
  then have "hang_cnt (snd (process_block s far mic)) = hangover_blocks (config s)"
    by (simp add: hang_cnt_process_block)
  with quiet_run_suppress[OF assms(2,3)] d show ?thesis by (simp add: suppress_iff)
qed

text \<open>
  As stated the claim fails: with the default hangover length 20, after one detected
  block (\<open>[1/2]\<close> on both inputs, one sample per block) and among 21 all-zero blocks, none
  of which is declared echo, block number 20 of the run is still suppressed and block
  number 21 is the first released.
\<close>

theorem hangover_releases_late_counterexample:
  "hangover_blocks (config example_ncc) = 20
   \<and> estimated_lag_samples (fst (process_block example_ncc [1 / 2] [1 / 2])) = 0
   \<and> list_all (\<lambda>r. estimated_lag_samples r = - 1)
        (fst (process_blocks (snd (process_block example_ncc [1 / 2] [1 / 2]))
               (replicate 21 ([0], [0]))))
   \<and> suppress (fst (process_blocks (snd (process_block example_ncc [1 / 2] [1 / 2]))
                      (replicate 21 ([0], [0]))) ! 19)
   \<and> \<not> suppress (fst (process_blocks (snd (process_block example_ncc [1 / 2] [1 / 2]))
                      (replicate 21 ([0], [0]))) ! 20)"
proof -
  let ?s = "snd (process_block example_ncc [1 / 2] [1 / 2])"
  let ?rs = "fst (process_blocks ?s (replicate 21 ([0], [0])))"
  have h: "hang_cnt ?s = 20"
    using example_ncc_first(4)
    by (simp add: hang_cnt_process_block example_ncc_fields default_config_fields)
  have q: "\<forall>r \<in> set ?rs. estimated_lag_samples r = - 1"
    using example_ncc_quiet_run[of 21] by (simp add: list_all_iff)
  have "suppress (?rs ! 19) \<longleftrightarrow> int 19 < hang_cnt ?s" using q by (rule quiet_run_suppress) simp
  moreover have "suppress (?rs ! 20) \<longleftrightarrow> int 20 < hang_cnt ?s" using q by (rule quiet_run_suppress) simp
  ultimately show ?thesis
    using h example_ncc_first(5) example_ncc_quiet_run[of 21]
    by (simp add: example_ncc_fields default_config_fields)
qed

text \<open>Default hangover 20: of 25 silent blocks after a detection the first 20 are held.\<close>

theorem hangover_holds_H_blocks_witness:
  "estimated_lag_samples (fst (process_block example_ncc [1 / 2] [1 / 2])) \<noteq> - 1
   \<and> list_all (\<lambda>r. estimated_lag_samples r = - 1)
        (fst (process_blocks (snd (process_block example_ncc [1 / 2] [1 / 2]))
               (replicate 25 ([0], [0]))))
   \<and> suppress (fst (process_block example_ncc [1 / 2] [1 / 2]))
   \<and> suppress (fst (process_blocks (snd (process_block example_ncc [1 / 2] [1 / 2]))
                      (replicate 25 ([0], [0]))) ! 0)
   \<and> suppress (fst (process_blocks (snd (process_block example_ncc [1 / 2] [1 / 2]))
                      (replicate 25 ([0], [0]))) ! 19)
   \<and> \<not> suppress (fst (process_blocks (snd (process_block example_ncc [1 / 2] [1 / 2]))
                      (replicate 25 ([0], [0]))) ! 20)
   \<and> \<not> suppress (fst (process_blocks (snd (process_block example_ncc [1 / 2] [1 / 2]))
                      (replicate 25 ([0], [0]))) ! 24)"
proof -
  let ?s = "snd (process_block example_ncc [1 / 2] [1 / 2])"
  let ?rs = "fst (process_blocks ?s (replicate 25 ([0], [0])))"
  have d: "estimated_lag_samples (fst (process_block example_ncc [1 / 2] [1 / 2])) \<noteq> - 1"
    by (simp add: example_ncc_first(5))
  have q: "\<forall>r \<in> set ?rs. estimated_lag_samples r = - 1"
    using example_ncc_quiet_run[of 25] by (simp add: list_all_iff)
  have H: "hangover_blocks (config example_ncc) = 20"
    by (simp add: example_ncc_fields default_config_fields)
  note t = hangover_holds_H_blocks[OF d q]
  have "suppress (fst (process_block example_ncc [1 / 2] [1 / 2]))" using t[of 0] by simp
  moreover have "suppress (?rs ! 0)" using t[of 0] H by simp
  moreover have "suppress (?rs ! 19)" using t[of 19] H by simp
  moreover have "\<not> suppress (?rs ! 20)" using t[of 20] H by simp
  moreover have "\<not> suppress (?rs ! 24)" using t[of 24] H by simp
  ultimately show ?thesis using d example_ncc_quiet_run[of 25] by simp
qed

subsection \<open>Gain smoothing and output\<close>

text \<open>
  Claim C4. Every call performs exactly one step of the asymmetric one-pole filter: the
  target is the muted linear gain when the returned flag \<^verbatim>\<open>suppress\<close> is set and 1
  otherwise, the coefficient is \<^verbatim>\<open>attack\<close> when the target lies below the current gain
  and \<^verbatim>\<open>release\<close> otherwise, the new gain is \<open>(1 - coeff) * gain + coeff * target\<close>, it
  is the gain reported and stored, and output sample \<open>i\<close> is microphone sample \<open>i\<close>
  times that new gain.
\<close>

theorem gain_update_one_pole:
  "(let r = fst (process_block s far mic);
        s' = snd (process_block s far mic);
        target = (if suppress r then atten_linear s else 1);
        coeff = (if target < gate_gain s then attack (config s) else release (config s))
    in applied_gain r = (1 - coeff) * gate_gain s + coeff * target
       \<and> gate_gain s' = applied_gain r
       \<and> length (out r) = nat (block_samples s)
       \<and> (\<forall>i < nat (block_samples s). out r ! i = mic ! i * applied_gain r))"
  by (simp add: process_block_result process_block_state Let_def smooth_gain_def)

text \<open>One attack step from gain 1 towards 0.0001 with coefficient 0.1.\<close>

theorem gain_update_one_pole_witness:
  "suppress (fst (process_block example_amdf [1 / 2] [1 / 2]))
   \<and> applied_gain (fst (process_block example_amdf [1 / 2] [1 / 2])) = 90001 / 100000
   \<and> gate_gain (snd (process_block example_amdf [1 / 2] [1 / 2])) = 90001 / 100000
   \<and> out (fst (process_block example_amdf [1 / 2] [1 / 2])) = [90001 / 200000]"
proof -
  let ?r = "fst (process_block example_amdf [1 / 2] [1 / 2])"
  have s: "suppress ?r" using example_amdf_first(4) by (simp add: suppress_iff)
  from gain_update_one_pole[of example_amdf "[1 / 2]" "[1 / 2]"] s
  have g: "applied_gain ?r = 90001 / 100000"
    and g': "gate_gain (snd (process_block example_amdf [1 / 2] [1 / 2])) = applied_gain ?r"
    and l: "length (out ?r) = 1" and o: "out ?r ! 0 = 1 / 2 * applied_gain ?r"
    by (simp_all add: Let_def example_amdf_fields amdf_config_fields)
  from l o g have "out ?r = [90001 / 200000]" by (cases "out ?r") simp_all
  with s g g' show ?thesis by simp
qed

subsection \<open>Tie-break of the lag search\<close>

text \<open>
  Claim C5. The search is the loop body \<open>keep_best\<close>, which replaces the running best only
  by a strictly larger score, run over the candidates \<open>0, lag_step, 2 * lag_step, \<dots>\<close> up
  to the maximum lag in ascending order. It returns a candidate whose score no candidate
  exceeds and which every smaller candidate misses strictly, so among equal best scores
  the smallest lag wins; the power returned with it is the reference power at that lag.
\<close>

theorem lag_search_first_maximum:
  assumes "0 \<le> max_lag_samples s"
  shows "lag_search s mic
           = foldl (keep_best s mic) (MinusInfinity, 0, 1 / 10 ^ 9) (lag_candidates s)
         \<and> sorted_wrt (<) (lag_candidates s)
         \<and> (\<exists>L. lag_search s mic = (Score (score_at s mic L), L, far_pow_at s L)
                \<and> L \<in> set (lag_candidates s)
                \<and> (\<forall>l \<in> set (lag_candidates s). score_at s mic l \<le> score_at s mic L)
                \<and> (\<forall>l \<in> set (lag_candidates s). l < L \<longrightarrow> score_at s mic l < score_at s mic L))"
proof -
  have "sorted_wrt (<) (lag_candidates s)"
    unfolding lag_candidates_def sorted_wrt_map
    using lag_step_pos[of s] by (simp add: sorted_wrt_iff_nth_less)
  moreover from lag_search_winner[OF assms, of mic]
  have "\<exists>L. lag_search s mic = (Score (score_at s mic L), L, far_pow_at s L)
                \<and> L \<in> set (lag_candidates s)
                \<and> (\<forall>l \<in> set (lag_candidates s). score_at s mic l \<le> score_at s mic L)
                \<and> (\<forall>l \<in> set (lag_candidates s). l < L \<longrightarrow> score_at s mic l < score_at s mic L)"
    by (simp add: is_winner_def)
  moreover have "lag_search s mic
           = foldl (keep_best s mic) (MinusInfinity, 0, 1 / 10 ^ 9) (lag_candidates s)"
    by (rule lag_search_foldl)
  ultimately show ?thesis by blast
qed

text \<open>A tie: lags 0 and 1 both score 1 on the second block \<open>[1/2]\<close>, and lag 0 wins.\<close>

theorem lag_search_first_maximum_witness:
  "0 \<le> max_lag_samples
          (push_block (snd (process_block example_amdf [1 / 2] [1 / 2])) [1 / 2])
   \<and> score_at (push_block (snd (process_block example_amdf [1 / 2] [1 / 2])) [1 / 2]) [1 / 2] 0 = 1
   \<and> score_at (push_block (snd (process_block example_amdf [1 / 2] [1 / 2])) [1 / 2]) [1 / 2] 1 = 1
   \<and> lag_search (push_block (snd (process_block example_amdf [1 / 2] [1 / 2])) [1 / 2]) [1 / 2]
       = (Score 1, 0, 1 / 4)"
proof -
  let ?s2 = "push_block (snd (process_block example_amdf [1 / 2] [1 / 2])) [1 / 2]"
  have h: "0 \<le> max_lag_samples ?s2" by (simp add: example_amdf_fields)
  from lag_search_first_maximum[OF h, of "[1 / 2]"] obtain L where
    L: "lag_search ?s2 [1 / 2] = (Score (score_at ?s2 [1 / 2] L), L, far_pow_at ?s2 L)"
       "is_winner ?s2 [1 / 2] L"
    unfolding is_winner_def by blast
  from L(2) example_amdf_tie(1)[of "[1 / 2]"] have "L = 0" by (rule is_winner_unique)
  with L(1) have "lag_search ?s2 [1 / 2] = (Score 1, 0, 1 / 4)"
    by (simp add: example_amdf_tie)
  with h example_amdf_tie(2,5)[of "[1 / 2]"] show ?thesis by simp
qed

subsection \<open>An exact echo\<close>

text \<open>
  Claim C6, as the code has it, for the AMDF metric. Let the microphone block be the
  far-end block that ends \<open>L\<close> samples before the newest far-end sample, \<open>L\<close> a candidate
  lag. The history window at lag \<open>L\<close> is then that block, lag \<open>L\<close> scores 1, no lag scores
  more, and the reference power at lag \<open>L\<close> is the microphone power. The lag found is the
  smallest candidate that scores 1: it is at most \<open>L\<close>, and it is \<open>L\<close> exactly when every
  smaller candidate scores below 1. Echo is declared exactly when the threshold is below 1
  and the power-ratio condition holds at the lag found, which for the lag \<open>L\<close> means a
  power-ratio ceiling above 1; the lag reported is then the lag found.
\<close>

theorem exact_echo_detection:
  assumes "wf_state s" and "ring_holds s stream" and "length far = nat (block_samples s)"
      and "L \<in> set (lag_candidates s)"
      and "nat (block_samples s) + nat L \<le> length (stream @ far)"
      and "mic = delayed_block (stream @ far) (nat (block_samples s)) (nat L)"
      and "lag_metric (config s) = kAMDF"
  shows "window_matches (push_block s far) mic L
     \<and> score_at (push_block s far) mic L = 1
     \<and> (\<forall>l. score_at (push_block s far) mic l \<le> 1)
     \<and> far_pow_at (push_block s far) L = mic_pow (nat (block_samples s)) mic
     \<and> (\<exists>W. lag_search (push_block s far) mic = (Score 1, W, far_pow_at (push_block s far) W)
           \<and> W \<in> set (lag_candidates s) \<and> W \<le> L
           \<and> score_at (push_block s far) mic W = 1
           \<and> (\<forall>l \<in> set (lag_candidates s). l < W \<longrightarrow>
                  score_at (push_block s far) mic l < 1)
           \<and> (W = L \<longleftrightarrow>
                  (\<forall>l \<in> set (lag_candidates s). l < L \<longrightarrow>
                     score_at (push_block s far) mic l < 1))
           \<and> (echo_detected (push_block s far) mic \<longleftrightarrow>
                 rho_thresh (config s) < 1
                 \<and> mic_pow (nat (block_samples s)) mic
                     < power_ratio_alpha (config s) * far_pow_at (push_block s far) W)
           \<and> (W = L \<longrightarrow>
                 (echo_detected (push_block s far) mic \<longleftrightarrow>
                    rho_thresh (config s) < 1 \<and> 1 < power_ratio_alpha (config s)))
           \<and> estimated_lag_samples (fst (process_block s far mic))
               = (if echo_detected (push_block s far) mic then W else - 1))"
proof -
  let ?s1 = "push_block s far"
  have a1: "lag_metric (config ?s1) = kAMDF" using assms(7) by simp
  have mL: "window_matches ?s1 mic L"
    unfolding assms(6) using assms(1,2,3,4,5) by (rule delayed_block_matches)
  have sL: "score_at ?s1 mic L = 1" using a1 mL by (simp add: amdf_score_eq_1_iff)
  have le: "\<forall>l. score_at ?s1 mic l \<le> 1" using a1 by (simp add: amdf_score_le_1)
  have fL: "far_pow_at ?s1 L = mic_pow (nat (block_samples s)) mic"
    using window_matches_far_pow[OF mL] by simp
  from assms(4) have Lc: "L \<in> set (lag_candidates ?s1)" by simp
  from amdf_exact_window_winner[OF a1 Lc mL] obtain W where
    W: "is_winner ?s1 mic W" "W \<le> L" "score_at ?s1 mic W = 1" by blast
  from W(1) have Wc: "W \<in> set (lag_candidates s)" by (simp add: is_winner_def)
  from W(1) have "0 \<le> max_lag_samples ?s1"
    by (auto simp: is_winner_def set_lag_candidates visited_def)
  from lag_search_winner[OF this, of mic] obtain W' where
    W': "lag_search ?s1 mic = (Score (score_at ?s1 mic W'), W', far_pow_at ?s1 W')"
        "is_winner ?s1 mic W'" by blast
  with W(1) have "W' = W" using is_winner_unique by blast
  with W'(1) W(3) have ls: "lag_search ?s1 mic = (Score 1, W, far_pow_at ?s1 W)" by simp
  have below: "\<forall>l \<in> set (lag_candidates s). l < W \<longrightarrow> score_at ?s1 mic l < 1"
    using W(1,3) by (simp add: is_winner_def)
  have only: "W = L \<longleftrightarrow> (\<forall>l \<in> set (lag_candidates s). l < L \<longrightarrow> score_at ?s1 mic l < 1)"
  proof
    assume "W = L"
    with below show "\<forall>l \<in> set (lag_candidates s). l < L \<longrightarrow> score_at ?s1 mic l < 1" by simp
  next
    assume h: "\<forall>l \<in> set (lag_candidates s). l < L \<longrightarrow> score_at ?s1 mic l < 1"
    show "W = L"
    proof (rule ccontr)
      assume "W \<noteq> L"
      with W(2) have "W < L" by simp
      with h Wc have "score_at ?s1 mic W < 1" by blast
      with W(3) show False by simp
    qed
  qed
  have det: "echo_detected ?s1 mic \<longleftrightarrow>
                 rho_thresh (config s) < 1
                 \<and> mic_pow (nat (block_samples s)) mic
                     < power_ratio_alpha (config s) * far_pow_at ?s1 W"
    using echo_detected_winner(1)[OF W(1)] W(3) by simp
  have pos: "0 < mic_pow (nat (block_samples s)) mic"
    using mic_pow_floor[of "nat (block_samples s)" mic]
    by (simp add: less_le_trans[of 0 "1 / 10 ^ 9"])
  have detL: "echo_detected ?s1 mic \<longleftrightarrow>
                rho_thresh (config s) < 1 \<and> 1 < power_ratio_alpha (config s)" if "W = L"
    using det fL pos that by simp
  have lag: "estimated_lag_samples (fst (process_block s far mic))
               = (if echo_detected ?s1 mic then W else - 1)"
    using ls by (simp add: process_block_result)
  have "\<exists>W. lag_search ?s1 mic = (Score 1, W, far_pow_at ?s1 W)
           \<and> W \<in> set (lag_candidates s) \<and> W \<le> L
           \<and> score_at ?s1 mic W = 1
           \<and> (\<forall>l \<in> set (lag_candidates s). l < W \<longrightarrow> score_at ?s1 mic l < 1)
           \<and> (W = L \<longleftrightarrow>
                  (\<forall>l \<in> set (lag_candidates s). l < L \<longrightarrow> score_at ?s1 mic l < 1))
           \<and> (echo_detected ?s1 mic \<longleftrightarrow>
                 rho_thresh (config s) < 1
                 \<and> mic_pow (nat (block_samples s)) mic
                     < power_ratio_alpha (config s) * far_pow_at ?s1 W)
           \<and> (W = L \<longrightarrow>
                 (echo_detected ?s1 mic \<longleftrightarrow>
                    rho_thresh (config s) < 1 \<and> 1 < power_ratio_alpha (config s)))
           \<and> estimated_lag_samples (fst (process_block s far mic))
               = (if echo_detected ?s1 mic then W else - 1)"
    apply (rule exI[of _ W])
    using ls Wc W(2,3) below only det detL lag by blast
  with mL sL le fL show ?thesis by blast
qed

text \<open>
  As stated the claim fails in three ways. A smaller lag sees the same window: the
  reference is \<open>1/2, 1/2\<close> (one sample per block, AMDF) and the microphone block \<open>[1/2]\<close>
  equals the reference block delivered 1 sample earlier, lag 1 is a candidate and the
  power-ratio condition holds there, yet the lag reported is 0. A scaled copy under AMDF:
  the microphone block \<open>[1/8]\<close> is a quarter of the newest reference block \<open>[1/2]\<close> and the
  power-ratio condition holds at lag 0, but lag 0 scores \<open>2/5\<close>, below the threshold, and
  no echo is declared. An exact copy below the power floor under NCC: reference and
  microphone are both \<open>[1/100000]\<close>, the power-ratio condition holds at lag 0 with both
  powers at the floor, but lag 0 scores \<open>1/10\<close> and no echo is declared.
\<close>

theorem exact_echo_smaller_lag_counterexample:
  "1 \<in> set (lag_candidates (snd (process_block example_amdf [1 / 2] [1 / 2])))
   \<and> [1 / 2] = delayed_block ([1 / 2] @ [1 / 2]) 1 1
   \<and> window_matches (push_block (snd (process_block example_amdf [1 / 2] [1 / 2])) [1 / 2])
        [1 / 2] 1
   \<and> mic_pow 1 [1 / 2]
        < power_ratio_alpha amdf_config
          * far_pow_at (push_block (snd (process_block example_amdf [1 / 2] [1 / 2])) [1 / 2]) 1
   \<and> estimated_lag_samples
        (fst (process_block (snd (process_block example_amdf [1 / 2] [1 / 2])) [1 / 2] [1 / 2]))
       = 0
   \<and> 0 \<in> set (lag_candidates example_amdf)
   \<and> [1 / 8] = map (\<lambda>x. x / 4) (delayed_block ([] @ [1 / 2]) 1 0)
   \<and> mic_pow 1 [1 / 8]
        < power_ratio_alpha amdf_config * far_pow_at (push_block example_amdf [1 / 2]) 0
   \<and> score_at (push_block example_amdf [1 / 2]) [1 / 8] 0 = 2 / 5
   \<and> estimated_lag_samples (fst (process_block example_amdf [1 / 2] [1 / 8])) = - 1
   \<and> 0 \<in> set (lag_candidates example_ncc)
   \<and> [1 / 100000] = delayed_block ([] @ [1 / 100000]) 1 0
   \<and> mic_pow 1 [1 / 100000]
        < power_ratio_alpha default_config
          * far_pow_at (push_block example_ncc [1 / 100000]) 0
   \<and> score_at (push_block example_ncc [1 / 100000]) [1 / 100000] 0 = 1 / 10
   \<and> estimated_lag_samples (fst (process_block example_ncc [1 / 100000] [1 / 100000])) = - 1"
proof -
  let ?s = "snd (process_block example_amdf [1 / 2] [1 / 2])"
  have tie: "estimated_lag_samples (fst (process_block ?s [1 / 2] [1 / 2])) = 0"
    using example_amdf_tie(7)[of "[1 / 2]"]
          echo_detected_winner(2)[OF example_amdf_tie(1)[of "[1 / 2]"]]
    by (simp add: process_block_result)
  have p1: "mic_pow 1 [1 / 2] = 1 / 4" by (simp add: mic_pow_def)
  have a: "1 \<in> set (lag_candidates ?s)
   \<and> [1 / 2] = delayed_block ([1 / 2] @ [1 / 2]) 1 1
   \<and> window_matches (push_block ?s [1 / 2]) [1 / 2] 1
   \<and> mic_pow 1 [1 / 2] < power_ratio_alpha amdf_config * far_pow_at (push_block ?s [1 / 2]) 1
   \<and> estimated_lag_samples (fst (process_block ?s [1 / 2] [1 / 2])) = 0"
    using tie p1 example_amdf_second(7)[of "[1 / 2]"] example_amdf_tie(4,6)[of "[1 / 2]"]
    by (simp add: delayed_block_def amdf_config_fields)
  have p2: "mic_pow 1 [1 / 8] = 1 / 64" by (simp add: mic_pow_def)
  have b: "0 \<in> set (lag_candidates example_amdf)
   \<and> [1 / 8] = map (\<lambda>x. x / 4) (delayed_block ([] @ [1 / 2]) 1 0)
   \<and> mic_pow 1 [1 / 8]
        < power_ratio_alpha amdf_config * far_pow_at (push_block example_amdf [1 / 2]) 0
   \<and> score_at (push_block example_amdf [1 / 2]) [1 / 8] 0 = 2 / 5
   \<and> estimated_lag_samples (fst (process_block example_amdf [1 / 2] [1 / 8])) = - 1"
    using example_amdf_scaled(1,2,4) p2 example_candidates(1)[of amdf_config]
    by (simp add: delayed_block_def amdf_config_fields example_amdf_def)
  have p3: "mic_pow 1 [1 / 100000] = 1 / 10 ^ 9" by (simp add: mic_pow_def)
  have c: "0 \<in> set (lag_candidates example_ncc)
   \<and> [1 / 100000] = delayed_block ([] @ [1 / 100000]) 1 0
   \<and> mic_pow 1 [1 / 100000]
        < power_ratio_alpha default_config
          * far_pow_at (push_block example_ncc [1 / 100000]) 0
   \<and> score_at (push_block example_ncc [1 / 100000]) [1 / 100000] 0 = 1 / 10
   \<and> estimated_lag_samples (fst (process_block example_ncc [1 / 100000] [1 / 100000])) = - 1"
    using example_ncc_quiet(2,3,5) p3 example_candidates(1)[of default_config]
    by (simp add: delayed_block_def default_config_fields example_ncc_def)
  from a b c show ?thesis by blast
qed

text \<open>Reference \<open>1/2, 1/4\<close> and microphone \<open>[1/2]\<close> under AMDF: lag 0 scores below 1,
  lag 1 is found and echo is declared.\<close>

theorem exact_echo_detection_witness:
  "wf_state (snd (process_block example_amdf [1 / 2] [1 / 2]))
   \<and> ring_holds (snd (process_block example_amdf [1 / 2] [1 / 2])) [1 / 2]
   \<and> 1 \<in> set (lag_candidates (snd (process_block example_amdf [1 / 2] [1 / 2])))
   \<and> [1 / 2] = delayed_block ([1 / 2] @ [1 / 4]) 1 1
   \<and> estimated_lag_samples
        (fst (process_block (snd (process_block example_amdf [1 / 2] [1 / 2])) [1 / 4] [1 / 2]))
       = 1"
proof -
  let ?s = "snd (process_block example_amdf [1 / 2] [1 / 2])"
  let ?s2 = "push_block ?s [1 / 4]"
  note f = example_amdf_second[of "[1 / 2]"]
  have db: "[1 / 2] = delayed_block ([1 / 2] @ [1 / 4]) (nat (block_samples ?s)) (nat 1)"
    by (simp add: example_amdf_fields delayed_block_def)
  have len: "length [1 / 4 :: real] = nat (block_samples ?s)"
    by (simp add: f example_amdf_fields)
  have amdf: "lag_metric (config ?s) = kAMDF"
    by (simp add: f example_amdf_fields amdf_config_fields)
  have enough: "nat (block_samples ?s) + nat 1 \<le> length ([1 / 2] @ [1 / 4 :: real])"
    by (simp add: f example_amdf_fields)
  from exact_echo_detection[OF f(1,2) len f(7) enough db amdf] obtain W where
    W: "W = 1 \<longleftrightarrow>
          (\<forall>l \<in> set (lag_candidates ?s). l < 1 \<longrightarrow> score_at ?s2 [1 / 2] l < 1)"
       "W = 1 \<longrightarrow>
          (echo_detected ?s2 [1 / 2] \<longleftrightarrow>
             rho_thresh (config ?s) < 1 \<and> 1 < power_ratio_alpha (config ?s))"
       "estimated_lag_samples (fst (process_block ?s [1 / 4] [1 / 2]))
          = (if echo_detected ?s2 [1 / 2] then W else - 1)"
    by blast
  have amdf2: "lag_metric (config ?s2) = kAMDF" using amdf by simp
  have "fx_at ?s2 0 0 = [1 / 4] ! 0"
    using f(1) len by (rule fx_at_pushed_block) (simp add: f example_amdf_fields)
  then have "\<not> window_matches ?s2 [1 / 2] 0"
    by (simp add: window_matches_def f example_amdf_fields)
  then have "score_at ?s2 [1 / 2] 0 \<noteq> 1" using amdf2 by (simp add: amdf_score_eq_1_iff)
  with amdf_score_le_1[OF amdf2, of "[1 / 2]" 0] have n0: "score_at ?s2 [1 / 2] 0 < 1" by simp
  have "score_at ?s2 [1 / 2] l < 1" if "l \<in> set (lag_candidates ?s)" "l < 1" for l
  proof -
    from that have "l = 0" using candidate_nonneg[of l ?s] by simp
    with n0 show ?thesis by simp
  qed
  with W(1) have "W = 1" by blast
  with W(2,3) have "estimated_lag_samples (fst (process_block ?s [1 / 4] [1 / 2])) = 1"
    by (simp add: f example_amdf_fields amdf_config_fields)
  with f(1,2,7) show ?thesis by (simp add: delayed_block_def)
qed

subsection \<open>The reference history\<close>

text \<open>
  Claim C7. The history has \<open>max_lag_samples + 4 * block_samples\<close> slots and starts zeroed
  with the cursor at 0, also after \<^verbatim>\<open>reset\<close>. A call writes the far-end block at the
  cursor, sample \<open>i\<close> into slot \<open>(cursor + i) mod capacity\<close>: afterwards sample \<open>j\<close> of
  everything delivered so far sits in slot
  \<open>j mod capacity\<close> for each of the last \<open>capacity\<close> samples, slots never written are 0,
  the capacity is unchanged, and the cursor has advanced by the block length modulo the
  capacity and is below the capacity. So after any run of calls since construction the
  history holds the most recent \<open>capacity\<close> samples of the blocks delivered.
\<close>

theorem history_ring_buffer:
  "length (far_hist (new_suppressor sr cfg))
     = nat (max_lag_samples (new_suppressor sr cfg))
       + 4 * nat (block_samples (new_suppressor sr cfg))
   \<and> ring_holds (new_suppressor sr cfg) []
   \<and> ring_holds (reset s) []
   \<and> (list_all (\<lambda>b. length (fst b) = nat (block_samples (new_suppressor sr cfg))) blocks \<longrightarrow>
        ring_holds (snd (process_blocks (new_suppressor sr cfg) blocks))
          (concat (map fst blocks)))
   \<and> (wf_state s \<and> ring_holds s stream \<and> length far = nat (block_samples s) \<longrightarrow>
        ring_holds (snd (process_block s far mic)) (stream @ far)
        \<and> length (far_hist (snd (process_block s far mic))) = length (far_hist s)
        \<and> hist_pos (snd (process_block s far mic)) < length (far_hist s)
        \<and> hist_pos (snd (process_block s far mic))
            = (hist_pos s + nat (block_samples s)) mod length (far_hist s)
        \<and> list_all (\<lambda>i. far_hist (snd (process_block s far mic))
                          ! ((hist_pos s + i) mod length (far_hist s)) = far ! i)
            [0..<nat (block_samples s)])"
proof -
  have "length (far_hist (new_suppressor sr cfg))
     = nat (max_lag_samples (new_suppressor sr cfg))
       + 4 * nat (block_samples (new_suppressor sr cfg))"
    using wf_new[of sr cfg] by (simp add: wf_state_def)
  moreover have "ring_holds (new_suppressor sr cfg) []"
    by (simp add: ring_holds_def ring_of_def new_suppressor_def Let_def reset_def set_config_def set_config_with_def)
  moreover have "ring_holds (reset s) []"
    by (simp add: ring_holds_def ring_of_def reset_def)
  moreover have "ring_holds (snd (process_blocks (new_suppressor sr cfg) blocks))
          (concat (map fst blocks))"
    if "list_all (\<lambda>b. length (fst b) = nat (block_samples (new_suppressor sr cfg))) blocks"
    using ring_holds_process_blocks[OF wf_new ring_holds_new that] by simp
  moreover have "ring_holds (snd (process_block s far mic)) (stream @ far)
        \<and> length (far_hist (snd (process_block s far mic))) = length (far_hist s)
        \<and> hist_pos (snd (process_block s far mic)) < length (far_hist s)
        \<and> hist_pos (snd (process_block s far mic))
            = (hist_pos s + nat (block_samples s)) mod length (far_hist s)
        \<and> list_all (\<lambda>i. far_hist (snd (process_block s far mic))
                          ! ((hist_pos s + i) mod length (far_hist s)) = far ! i)
            [0..<nat (block_samples s)]"
    if wf: "wf_state s" and ring: "ring_holds s stream" and len: "length far = nat (block_samples s)"
  proof -
    from wf have cap: "0 < length (far_hist s)" and pos: "hist_pos s < length (far_hist s)"
      by (simp_all add: wf_state_def)
    have "ring_holds (push_block s far) (stream @ far)"
      using ring_holds_push_block[OF cap ring, of far] len by simp
    then have "ring_holds (snd (process_block s far mic)) (stream @ far)"
      by (simp add: ring_holds_def)
    moreover have "hist_pos (snd (process_block s far mic))
            = (hist_pos s + nat (block_samples s)) mod length (far_hist s)"
      using hist_pos_push_block[OF pos, of far] len by simp
    moreover have "list_all (\<lambda>i. far_hist (snd (process_block s far mic))
                          ! ((hist_pos s + i) mod length (far_hist s)) = far ! i)
            [0..<nat (block_samples s)]"
      using pushed_block_at_cursor[OF wf ring len] by (simp add: list_all_iff)
    ultimately show ?thesis using cap by simp
  qed
  ultimately show ?thesis by blast
qed

text \<open>The first block lands in slot 0 of 12 and moves the cursor to 1.\<close>

theorem history_ring_buffer_witness:
  "wf_state example_amdf \<and> ring_holds example_amdf []
   \<and> length (far_hist example_amdf) = 12
   \<and> ring_holds (snd (process_block example_amdf [1 / 2] [1 / 2])) [1 / 2]
   \<and> hist_pos (snd (process_block example_amdf [1 / 2] [1 / 2])) = 1
   \<and> far_hist (snd (process_block example_amdf [1 / 2] [1 / 2])) ! 0 = 1 / 2"
proof -
  let ?s' = "snd (process_block example_amdf [1 / 2] [1 / 2])"
  have len: "length [1 / 2 :: real] = nat (block_samples example_amdf)"
    by (simp add: example_amdf_fields)
  from history_ring_buffer[where sr = 100 and cfg = amdf_config and s = example_amdf
         and stream = "[]" and far = "[1 / 2]" and mic = "[1 / 2]" and blocks = "[]"]
       example_amdf_fields(1,2) len
  have r: "ring_holds ?s' ([] @ [1 / 2])"
    and c: "length (far_hist ?s') = length (far_hist example_amdf)"
    and p: "hist_pos ?s' = (hist_pos example_amdf + nat (block_samples example_amdf))
                             mod length (far_hist example_amdf)"
    by blast+
  from r c have "far_hist ?s' ! 0 = 1 / 2"
    by (simp add: ring_holds_def ring_of_def example_amdf_fields)
  moreover from p have "hist_pos ?s' = 1" by (simp add: example_amdf_fields)
  ultimately show ?thesis using r example_amdf_fields(1,2,5) by simp
qed

subsection \<open>The state invariant\<close>

text \<open>
  Claim C8, as the code has it. The gain lies between the muted linear gain and 1 and the
  hangover counter is not negative: after construction when the muted gain in dB is at
  most 0, after \<^verbatim>\<open>reset\<close> when the muted linear gain is at most 1, and after every
  \<^verbatim>\<open>process_block\<close> that starts in such a state with attack and release in \<open>[0, 1]\<close> and a
  hangover length that is not negative; the gain handed back lies in the same interval.
\<close>

theorem gain_and_hangover_invariant:
  "(atten_db cfg \<le> 0 \<longrightarrow> gain_inv (new_suppressor sr cfg))
   \<and> (atten_linear s \<le> 1 \<longrightarrow> gain_inv (reset s))
   \<and> (gain_inv s \<and> 0 \<le> attack (config s) \<and> attack (config s) \<le> 1
        \<and> 0 \<le> release (config s) \<and> release (config s) \<le> 1
        \<and> 0 \<le> hangover_blocks (config s) \<longrightarrow>
        gain_inv (snd (process_block s far mic))
        \<and> atten_linear s \<le> applied_gain (fst (process_block s far mic))
        \<and> applied_gain (fst (process_block s far mic)) \<le> 1)"
proof -
  have "gain_inv (new_suppressor sr cfg)" if "atten_db cfg \<le> 0"
  proof -
    have "10 powr (atten_db cfg / 20) \<le> 10 powr (0::real)"
      using that by (intro powr_mono) auto
    then show ?thesis by (simp add: gain_inv_def new_suppressor_fields)
  qed
  moreover have "gain_inv (reset s)" if "atten_linear s \<le> 1"
    using that by (simp add: gain_inv_def reset_def)
  moreover have "gain_inv (snd (process_block s far mic))
        \<and> atten_linear s \<le> applied_gain (fst (process_block s far mic))
        \<and> applied_gain (fst (process_block s far mic)) \<le> 1"
    if "gain_inv s" "0 \<le> attack (config s)" "attack (config s) \<le> 1"
       "0 \<le> release (config s)" "release (config s) \<le> 1" "0 \<le> hangover_blocks (config s)"
  proof -
    from that(1) have g: "atten_linear s \<le> gate_gain s" "gate_gain s \<le> 1" "0 \<le> hang_cnt s"
      by (simp_all add: gain_inv_def)
    from smooth_gain_bounds[OF g(1,2) that(2-5)]
    have "atten_linear s \<le> applied_gain (fst (process_block s far mic))
          \<and> applied_gain (fst (process_block s far mic)) \<le> 1"
      by (simp add: gate_gain_process_block)
    moreover have "0 \<le> hang_cnt (snd (process_block s far mic))"
      using g(3) that(6) by (simp add: hang_cnt_process_block)
    ultimately show ?thesis by (simp add: gain_inv_def gate_gain_process_block(1))
  qed
  ultimately show ?thesis by blast
qed

text \<open>
  As stated the claim fails for a muted gain above 0 dB: with \<^verbatim>\<open>atten_db = 20\<close>, attack
  and release in \<open>[0, 1]\<close> and hangover 20, the muted linear gain is 10 while the gain is 1
  after construction, and the gain handed back for a silent block is 1, below the muted
  gain.
\<close>

theorem gain_above_unity_counterexample:
  "0 \<le> attack loud_config \<and> attack loud_config \<le> 1
   \<and> 0 \<le> release loud_config \<and> release loud_config \<le> 1
   \<and> 0 \<le> hangover_blocks loud_config
   \<and> atten_linear (new_suppressor 16000 loud_config) = 10
   \<and> gate_gain (new_suppressor 16000 loud_config) = 1
   \<and> \<not> gain_inv (new_suppressor 16000 loud_config)
   \<and> applied_gain (fst (process_block (new_suppressor 16000 loud_config)
                          (silence (new_suppressor 16000 loud_config))
                          (silence (new_suppressor 16000 loud_config)))) = 1"
proof -
  let ?s = "new_suppressor 16000 loud_config"
  have a: "atten_linear ?s = 10" by (simp add: new_suppressor_fields loud_config_def)
  have g: "gate_gain ?s = 1" by (simp add: new_suppressor_fields)
  have "applied_gain (fst (process_block ?s (silence ?s) (silence ?s))) = 1"
    by (rule ncc_silence_first_gain)
       (simp_all add: new_suppressor_fields loud_config_def default_config_def)
  with a g show ?thesis by (simp add: gain_inv_def loud_config_def default_config_def)
qed

text \<open>The invariant on a suppressor with the default muted gain of -80 dB.\<close>

theorem gain_and_hangover_invariant_witness:
  "atten_db amdf_config \<le> 0 \<and> atten_linear example_amdf \<le> 1
   \<and> gain_inv example_amdf \<and> gain_inv (reset example_amdf)
   \<and> gain_inv (snd (process_block example_amdf [1 / 2] [1 / 2]))
   \<and> 1 / 10000 \<le> applied_gain (fst (process_block example_amdf [1 / 2] [1 / 2]))
   \<and> applied_gain (fst (process_block example_amdf [1 / 2] [1 / 2])) \<le> 1"
proof -
  have db: "atten_db amdf_config \<le> 0" by (simp add: amdf_config_fields)
  have al: "atten_linear example_amdf \<le> 1" by (simp add: example_amdf_fields)
  note inv = gain_and_hangover_invariant[where cfg = amdf_config and sr = 100
               and s = example_amdf and far = "[1 / 2]" and mic = "[1 / 2]"]
  from inv db have i0: "gain_inv example_amdf" by (simp add: example_amdf_def)
  from inv al have i1: "gain_inv (reset example_amdf)" by blast
  have c: "0 \<le> attack (config example_amdf)" "attack (config example_amdf) \<le> 1"
    "0 \<le> release (config example_amdf)" "release (config example_amdf) \<le> 1"
    "0 \<le> hangover_blocks (config example_amdf)"
    by (simp_all add: example_amdf_fields amdf_config_fields)
  from inv i0 c
  have "gain_inv (snd (process_block example_amdf [1 / 2] [1 / 2]))
        \<and> atten_linear example_amdf \<le> applied_gain (fst (process_block example_amdf [1 / 2] [1 / 2]))
        \<and> applied_gain (fst (process_block example_amdf [1 / 2] [1 / 2])) \<le> 1"
    by blast
  with db al i0 i1 show ?thesis by (simp add: example_amdf_fields)
qed

subsection \<open>Clamping of the configuration\<close>

text \<open>
  Claim C9, as the code has it. \<^verbatim>\<open>set_config\<close> stores the configuration as it is given,
  a negative hangover length included, and changes one more field, the muted linear gain:
  it is the value \<^verbatim>\<open>std::pow\<close> returns, or 0 when that value is below 0, and so it is
  never negative. A negative hangover length is clamped to zero by the command-line
  parsers only, when \<^verbatim>\<open>std::stoi\<close> returns. A stored length, negative or not, becomes the
  counter on detection, and the block after a detection is held only when the stored
  length is positive.
\<close>

theorem config_clamps:
  "set_config_with pw cfg s
     = s\<lparr>config := cfg, atten_linear := max 0 (pw 10 (atten_db cfg / 20))\<rparr>
   \<and> 0 \<le> atten_linear (set_config_with pw cfg s)
   \<and> set_config cfg s
       = s\<lparr>config := cfg, atten_linear := max 0 (10 powr (atten_db cfg / 20))\<rparr>
   \<and> 0 \<le> atten_linear (set_config cfg s)
   \<and> hangover_blocks (config (set_config cfg s)) = hangover_blocks cfg
   \<and> parse_hang (Some n) cfg = Some (cfg\<lparr>hangover_blocks := max 0 n\<rparr>)
   \<and> parse_hang None cfg = None
   \<and> snd (hangover_step True (hangover_blocks cfg) c) = hangover_blocks cfg
   \<and> (fst (hangover_step False (hangover_blocks cfg)
              (snd (hangover_step True (hangover_blocks cfg) c)))
        \<longleftrightarrow> 0 < hangover_blocks cfg)"
  by (simp add: set_config_def set_config_with_def Let_def parse_hang_def hangover_step_def
        max_def)

text \<open>
  As stated the claim fails for a hangover length of \<open>- 3\<close> handed to \<^verbatim>\<open>set_config\<close>:
  the stored length is \<open>- 3\<close>, and after a block that is declared echo the hangover
  counter is \<open>- 3\<close>.
\<close>

theorem negative_hangover_stored_counterexample:
  "hangover_blocks negative_hang_config = - 3
   \<and> hangover_blocks (config (set_config negative_hang_config example_amdf)) = - 3
   \<and> estimated_lag_samples
       (fst (process_block (set_config negative_hang_config example_amdf) [1 / 2] [1 / 2])) = 0
   \<and> hang_cnt
       (snd (process_block (set_config negative_hang_config example_amdf) [1 / 2] [1 / 2])) = - 3"
proof -
  let ?s = "set_config negative_hang_config example_amdf"
  let ?s1 = "push_block ?s [1 / 2]"
  have wf: "wf_state ?s" using example_amdf_fields(1) by (rule wf_set_config)
  have len: "length [1 / 2 :: real] = nat (block_samples ?s)"
    by (simp add: set_config_fields example_amdf_fields)
  have amdf: "lag_metric (config ?s) = kAMDF"
    by (simp add: set_config_fields negative_hang_config_fields)
  note w = amdf_same_block_winner[OF wf len amdf]
  have bp: "mic_pow (nat (block_samples ?s)) [1 / 2] = 1 / 4"
    by (simp add: set_config_fields example_amdf_fields mic_pow_def)
  have d: "echo_detected ?s1 [1 / 2]"
    using echo_detected_winner(1)[OF w(1)] w(2,3) bp
    by (simp add: set_config_fields negative_hang_config_fields)
  have "estimated_lag_samples (fst (process_block ?s [1 / 2] [1 / 2])) = 0"
    using d echo_detected_winner(2)[OF w(1)] by (simp add: process_block_result)
  moreover have "hang_cnt (snd (process_block ?s [1 / 2] [1 / 2])) = - 3"
    using d by (simp add: hang_cnt_process_block set_config_fields negative_hang_config_fields)
  ultimately show ?thesis by (simp add: set_config_fields negative_hang_config_fields)
qed

subsection \<open>Range of the reported lag\<close>

text \<open>
  Claim C10. The lag written to the caller is the sentinel \<open>- 1\<close> or a non-negative
  multiple of the lag step that does not exceed the maximum lag.
\<close>

theorem reported_lag_range:
  "estimated_lag_samples (fst (process_block s far mic)) = - 1
   \<or> (0 \<le> estimated_lag_samples (fst (process_block s far mic))
      \<and> estimated_lag_samples (fst (process_block s far mic)) \<le> max_lag_samples s
      \<and> lag_step s dvd estimated_lag_samples (fst (process_block s far mic)))"
proof (cases "echo_detected (push_block s far) mic")
  case False
  then show ?thesis by (simp add: process_block_result)
next
  case True
  from detected_lag_candidate[OF True] True show ?thesis
    by (simp add: process_block_result)
qed

end
